theory Spec2Isabelle
  imports Main "HOL-Library.Word"
begin

unbundle bit_operations_syntax

section \<open>The virtual file system of internal/pkg/fs/fs.go\<close>

subsection \<open>Errors and results\<close>

text \<open>
  The error values of fs.go: \<open>syscall.ENOTDIR\<close>, \<open>os.ErrNotExist\<close>, \<open>io.EOF\<close>, the three
  package-level errors, the two errors made by \<open>fmt.Errorf\<close> at a panic site (the bounded
  \<open>Readdir\<close> and \<open>validateNameComp\<close>), the run-time panics of Go itself (a failed type
  assertion, a slice bound out of range, a nil pointer dereference) and the error values a
  caller injects through \<open>VirtualFile.Error\<close>, which are numbered.
\<close>

datatype error =
    ENOTDIR
  | ErrNotExist
  | EOF
  | errBadMode
  | errIsDirDisagreement
  | errTooManyLinks
  | errNotSupported
  | errNameComp
  | runtimeTypeAssertion
  | runtimeSliceBounds
  | runtimeNilDeref
  | Injected nat

text \<open>
  A Go call either returns normally with a value (\<open>Ok\<close>), returns a non-nil error
  (\<open>Err\<close>), or panics (\<open>Panic\<close>).
\<close>

datatype 'a result = Ok 'a | Err error | Panic error

subsection \<open>File modes (Go's os.FileMode, a uint32)\<close>

text \<open>
  The type bits of package \<open>os\<close>: \<open>ModeDir\<close> is bit 31, \<open>ModeSymlink\<close> bit 27,
  \<open>ModeDevice\<close> bit 26, \<open>ModeNamedPipe\<close> bit 25, \<open>ModeSocket\<close> bit 24, \<open>ModeCharDevice\<close>
  bit 21 and \<open>ModeIrregular\<close> bit 19; \<open>ModeType\<close> is their union. \<open>IsDir\<close> and \<open>IsRegular\<close>
  are the methods of \<open>os.FileMode\<close>.
\<close>

type_synonym FileMode = "32 word"

definition ModeDir :: FileMode where "ModeDir = 2147483648"

definition ModeSymlink :: FileMode where "ModeSymlink = 134217728"

definition ModeDevice :: FileMode where "ModeDevice = 67108864"

definition ModeNamedPipe :: FileMode where "ModeNamedPipe = 33554432"

definition ModeSocket :: FileMode where "ModeSocket = 16777216"

definition ModeCharDevice :: FileMode where "ModeCharDevice = 2097152"

definition ModeIrregular :: FileMode where "ModeIrregular = 524288"

definition ModeType :: FileMode where
  "ModeType = ModeDir OR ModeSymlink OR ModeNamedPipe OR ModeSocket OR ModeDevice
     OR ModeCharDevice OR ModeIrregular"

definition IsDir :: "FileMode \<Rightarrow> bool" where
  "IsDir m = (m AND ModeDir \<noteq> 0)"

definition IsRegular :: "FileMode \<Rightarrow> bool" where
  "IsRegular m = (m AND ModeType = 0)"

subsection \<open>Nodes and the heap\<close>

text \<open>
  Nodes are heap objects reached through pointers (\<open>*node\<close>): a pointer is an address and
  the heap maps every address to a node. Go strings and byte slices are both byte
  sequences, here \<open>string\<close>.
\<close>

type_synonym addr = nat

text \<open>
  Modelled from the spec: the declaration of \<open>node\<close> is not in fs.go. The fields are the
  ones fs.go reads and writes: \<open>err\<close> (the injected error, nil when there is none), \<open>mode\<close>,
  \<open>name\<close> and \<open>extra\<close>, an \<open>interface{}\<close> on which fs.go makes the type assertions
  \<open>.([]byte)\<close> (file content or symlink target) and \<open>.([]*node)\<close> (the ordered children of
  a directory).
\<close>

datatype payload = Bytes string | Nodes "addr list"

record node =
  err :: "error option"
  extra :: payload
  mode :: FileMode
  name :: string

text \<open>
  The file system of fs.go with the heap its nodes live in. \<open>brk\<close> is the next address
  never handed out, so that \<open>&node{...}\<close> yields a fresh object.
\<close>

record VirtualFileSystem =
  cwd :: string
  root :: addr
  heap :: "addr \<Rightarrow> node"
  brk :: addr

definition alloc :: "VirtualFileSystem \<Rightarrow> node \<Rightarrow> addr \<times> VirtualFileSystem" where
  "alloc fs nd = (brk fs, fs\<lparr>heap := (heap fs)(brk fs := nd), brk := Suc (brk fs)\<rparr>)"

text \<open>
  Modelled from the spec: \<open>newDirNode\<close> is not in fs.go. It makes a directory with the
  given name: empty, without injected error, and a Directory whatever mode bits it is
  given (the root is made by \<open>newDirNode(0, "/")\<close> and "is always a Directory").
\<close>

definition newDirNode :: "VirtualFileSystem \<Rightarrow> FileMode \<Rightarrow> string \<Rightarrow> addr \<times> VirtualFileSystem" where
  "newDirNode fs m nm = alloc fs \<lparr>err = None, extra = Nodes [], mode = m OR ModeDir, name = nm\<rparr>"

text \<open>
  Modelled from the spec: \<open>dirAppend\<close> is not in fs.go. A directory holds an ordered
  sequence of children in insertion order, so the child goes to the end of the list. The
  payload of a node that holds no child list fails the type assertion.
\<close>

definition dirAppend :: "VirtualFileSystem \<Rightarrow> addr \<Rightarrow> addr \<Rightarrow> unit result \<times> VirtualFileSystem" where
  "dirAppend fs p childN =
     (case extra (heap fs p) of
        Nodes dir \<Rightarrow> (Ok (), fs\<lparr>heap := (heap fs)(p := (heap fs p)\<lparr>extra := Nodes (dir @ [childN])\<rparr>)\<rparr>)
      | Bytes _ \<Rightarrow> (Panic runtimeTypeAssertion, fs))"

text \<open>
  Modelled from the spec: \<open>dirLookup\<close> is not in fs.go. The component is looked up among
  the children by exact, case-sensitive match on the name; nil when no child has it.
\<close>

definition dirLookup :: "VirtualFileSystem \<Rightarrow> addr \<Rightarrow> string \<Rightarrow> addr option result" where
  "dirLookup fs p nameComp =
     (case extra (heap fs p) of
        Nodes dir \<Rightarrow> Ok (List.find (\<lambda>c. name (heap fs c) = nameComp) dir)
      | Bytes _ \<Rightarrow> Panic runtimeTypeAssertion)"

subsection \<open>Path resolution: findHelper\<close>

text \<open>
  The methods \<open>abs\<close>, \<open>find\<close> and \<open>Set\<close> are \<open>abs_path\<close>, \<open>find_fs\<close> and \<open>Set_fs\<close> here;
  every other function keeps its name.
\<close>

definition abs_path :: "VirtualFileSystem \<Rightarrow> string \<Rightarrow> string" where
  "abs_path fs nm = (if nm = [] \<or> hd nm \<noteq> CHR ''/'' then cwd fs @ nm else nm)"

text \<open>\<open>strings.IndexByte\<close>: the index of the first occurrence of the byte, or -1.\<close>

fun IndexByte :: "string \<Rightarrow> char \<Rightarrow> int" where
  "IndexByte [] c = -1"
| "IndexByte (x # xs) c =
     (if x = c then 0 else (let i = IndexByte xs c in if i < 0 then -1 else i + 1))"

text \<open>
  The helper's reference to the file system is passed beside it: resolution never writes
  to the heap. The field \<open>n\<close> of the source (the current node) is \<open>cur\<close> here: a
  record field is a constant, and a constant \<open>n\<close> would capture the variable \<open>n\<close> of every
  later statement.
\<close>

record findHelper =
  ignoreInjectedFaults :: bool
  links :: int
  nameRem :: string
  cur :: addr
  resolveSymlinks :: bool

text \<open>\<open>validateNameComp\<close> returns nothing; the result is the value it panics with, if any.\<close>

definition validateNameComp :: "string \<Rightarrow> error option" where
  "validateNameComp nameComp =
     (if nameComp = ''.'' \<or> nameComp = ''..'' then Some errNameComp else None)"

definition getChildN :: "VirtualFileSystem \<Rightarrow> findHelper \<Rightarrow> string \<Rightarrow> addr option result" where
  "getChildN fs f nameComp =
     (if nameComp \<noteq> [] then
        (case validateNameComp nameComp of
           Some e \<Rightarrow> Panic e
         | None \<Rightarrow>
            if mode (heap fs (cur f)) AND ModeDir = 0 then Err ENOTDIR
            else (case dirLookup fs (cur f) nameComp of
                    Panic e \<Rightarrow> Panic e
                  | Err e \<Rightarrow> Err e
                  | Ok None \<Rightarrow> Err ErrNotExist
                  | Ok (Some childN) \<Rightarrow> Ok (Some childN)))
      else Ok None)"

definition getNameComp :: "findHelper \<Rightarrow> int \<Rightarrow> string" where
  "getNameComp f slashPos =
     (if slashPos < 0 then nameRem f else take (nat slashPos) (nameRem f))"

definition updateNameRemFromSlashPos :: "findHelper \<Rightarrow> int \<Rightarrow> findHelper" where
  "updateNameRemFromSlashPos f slashPos =
     (if slashPos < 0 then f\<lparr>nameRem := []\<rparr>
      else f\<lparr>nameRem := drop (nat (slashPos + 1)) (nameRem f)\<rparr>)"

definition updateFromChildN :: "VirtualFileSystem \<Rightarrow> findHelper \<Rightarrow> addr \<Rightarrow> findHelper \<times> unit result" where
  "updateFromChildN fs f childN =
     (if mode (heap fs childN) AND ModeSymlink \<noteq> 0 then
        (if resolveSymlinks f then
           (let f1 = f\<lparr>links := links f + 1\<rparr> in
            if links f1 > 255 then (f1, Err errTooManyLinks)
            else (case extra (heap fs childN) of
                    Nodes _ \<Rightarrow> (f1, Panic runtimeTypeAssertion)
                  | Bytes target \<Rightarrow>
                      (if length target > 0 \<and> hd target = CHR ''/''
                       then (f1\<lparr>cur := root fs, nameRem := drop 1 target @ ''/'' @ nameRem f1\<rparr>, Ok ())
                       else (f1\<lparr>nameRem := target @ ''/'' @ nameRem f1\<rparr>, Ok ()))))
         else (f, Ok ()))
      else (f\<lparr>cur := childN\<rparr>, Ok ()))"

text \<open>
  The loop of \<open>run\<close>. It returns the helper as the loop leaves it, beside the error. A
  symlink redirection makes \<open>nameRem\<close> longer, so the recursion is not structural.
\<close>

function run :: "VirtualFileSystem \<Rightarrow> findHelper \<Rightarrow> findHelper \<times> unit result" where
  "run fs f =
     (if nameRem f \<noteq> [] then
        (case (if ignoreInjectedFaults f then None else err (heap fs (cur f))) of
           Some e \<Rightarrow> (f, Err e)
         | None \<Rightarrow>
            (let slashPos = IndexByte (nameRem f) CHR ''/'';
                 nameComp = getNameComp f slashPos
             in case getChildN fs f nameComp of
                  Panic e \<Rightarrow> (f, Panic e)
                | Err e \<Rightarrow> (f, Err e)
                | Ok childN \<Rightarrow>
                    (let f1 = updateNameRemFromSlashPos f slashPos in
                     if nameComp \<noteq> [] then
                       (case childN of
                          None \<Rightarrow> (f1, Panic runtimeNilDeref)
                        | Some c \<Rightarrow>
                            (case updateFromChildN fs f1 c of
                               (f2, Ok _) \<Rightarrow> run fs f2
                             | (f2, Err e) \<Rightarrow> (f2, Err e)
                             | (f2, Panic e) \<Rightarrow> (f2, Panic e)))
                     else run fs f1)))
      else (case (if ignoreInjectedFaults f then None else err (heap fs (cur f))) of
              Some e \<Rightarrow> (f, Err e)
            | None \<Rightarrow> (f, Ok ())))"
  by pat_completeness auto

lemma IndexByte_bound: "IndexByte s c < int (length s)"
  by (induction s) (auto simp: Let_def)

lemma IndexByte_lower: "- 1 \<le> IndexByte s c"
  by (induction s) (auto simp: Let_def)

lemma updateNameRemFromSlashPos_shorter:
  "nameRem f \<noteq> [] \<Longrightarrow>
   length (nameRem (updateNameRemFromSlashPos f (IndexByte (nameRem f) c))) < length (nameRem f)"
  using IndexByte_bound [of "nameRem f" c]
  by (auto simp: updateNameRemFromSlashPos_def)

lemma updateNameRemFromSlashPos_links [simp]:
  "links (updateNameRemFromSlashPos f i) = links f"
  by (simp add: updateNameRemFromSlashPos_def)

lemma updateFromChildN_Ok:
  "updateFromChildN fs f c = (f2, Ok u) \<Longrightarrow>
     (links f2 = links f \<and> nameRem f2 = nameRem f) \<or> (links f2 = links f + 1 \<and> links f2 \<le> 255)"
  by (auto simp: updateFromChildN_def Let_def split: if_splits payload.splits)

termination run
proof (relation "measures [\<lambda>(fs, f). nat (256 - links f), \<lambda>(fs, f). length (nameRem f)]", goal_cases)
  case 1
  show ?case by simp
next
  case (2 fs f slashPos nameComp childN f1 c f2 r u)
  from 2 have "updateFromChildN fs f1 c = (f2, Ok u)" by simp
  from updateFromChildN_Ok [OF this]
  have "(links f2 = links f1 \<and> nameRem f2 = nameRem f1) \<or> (links f2 = links f1 + 1 \<and> links f2 \<le> 255)" .
  moreover have "links f1 = links f" using 2 by simp
  moreover have "length (nameRem f1) < length (nameRem f)"
    using 2 updateNameRemFromSlashPos_shorter [of f "CHR ''/''"] by simp
  ultimately show ?case by auto
next
  case (3 fs f slashPos nameComp childN f1)
  then show ?case
    using updateNameRemFromSlashPos_shorter [of f "CHR ''/''"] by simp
qed

declare run.simps [simp del]

text \<open>
  \<open>find\<close>: the walk starts at the root with \<open>abs(name)[1:]\<close>; slicing an empty string at 1
  panics in Go. It returns the helper's node, its remaining name and the error.
\<close>

definition find_fs :: "VirtualFileSystem \<Rightarrow> string \<Rightarrow> bool \<Rightarrow> bool \<Rightarrow> addr \<times> string \<times> unit result" where
  "find_fs fs nm ignoreFaults resolve =
     (case abs_path fs nm of
        [] \<Rightarrow> (root fs, [], Panic runtimeSliceBounds)
      | _ # rest \<Rightarrow>
          (case run fs \<lparr>ignoreInjectedFaults = ignoreFaults, links = 0, nameRem = rest,
                        cur = root fs, resolveSymlinks = resolve\<rparr> of
             (f, r) \<Rightarrow> (cur f, nameRem f, r)))"

subsection \<open>Building the tree: createChildren and Set\<close>

record VirtualFile =
  Content :: string
  Mode :: FileMode
  Error :: "error option"

text \<open>
  The loop of \<open>createChildren\<close>. A panic leaves the file system as the loop has changed it
  so far.
\<close>

function createChildren ::
  "VirtualFileSystem \<Rightarrow> addr \<Rightarrow> string \<Rightarrow> VirtualFile \<Rightarrow> unit result \<times> VirtualFileSystem" where
  "createChildren fs p nmRem vfile =
     (let slashPos = IndexByte nmRem CHR ''/'';
          nameComp = (if slashPos < 0 then nmRem else take (nat slashPos) nmRem)
      in
      if nameComp \<noteq> [] then
        (case validateNameComp nameComp of
           Some e \<Rightarrow> (Panic e, fs)
         | None \<Rightarrow>
            if slashPos < 0 then
              (case alloc fs \<lparr>err = Error vfile,
                              extra = (if Mode vfile AND ModeDir = 0 then Bytes (Content vfile)
                                       else Nodes []),
                              mode = Mode vfile, name = nameComp\<rparr> of
                 (childN, fs1) \<Rightarrow> dirAppend fs1 p childN)
            else
              (case newDirNode fs ModeDir nameComp of
                 (childN, fs1) \<Rightarrow>
                   (case dirAppend fs1 p childN of
                      (Ok _, fs2) \<Rightarrow>
                        createChildren fs2 childN (drop (nat (slashPos + 1)) nmRem) vfile
                    | (Err e, fs2) \<Rightarrow> (Err e, fs2)
                    | (Panic e, fs2) \<Rightarrow> (Panic e, fs2))))
      else if slashPos < 0 then (Ok (), fs)
      else createChildren fs p (drop (nat (slashPos + 1)) nmRem) vfile)"
  by pat_completeness auto

lemma drop_IndexByte_shorter:
  "\<not> IndexByte s c < 0 \<Longrightarrow> length (drop (nat (IndexByte s c + 1)) s) < length s"
  using IndexByte_bound [of s c] by auto

termination createChildren
  by (relation "measure (\<lambda>(fs, p, nmRem, vfile). length nmRem)")
    (auto simp: drop_IndexByte_shorter simp del: length_drop)

declare createChildren.simps [simp del]

definition Set_fs :: "VirtualFileSystem \<Rightarrow> string \<Rightarrow> VirtualFile \<Rightarrow> unit result \<times> VirtualFileSystem" where
  "Set_fs fs nm vfile =
     (let flag = (if IsDir (Mode vfile) then ModeDir
                  else if Mode vfile AND ModeSymlink \<noteq> 0 then ModeSymlink
                  else 0)
      in
      if Mode vfile AND (ModeType AND NOT flag) \<noteq> 0 then (Panic errBadMode, fs)
      else
        (case find_fs fs nm True False of
           (p, nmRem, Panic e) \<Rightarrow> (Panic e, fs)
         | (p, nmRem, r) \<Rightarrow>
             if r = Err ENOTDIR then (Panic errIsDirDisagreement, fs)
             else if nmRem \<noteq> [] then createChildren fs p nmRem vfile
             else
               (let nodeIsDir = (mode (heap fs p) AND ModeDir \<noteq> 0);
                    vfileIsDir = (Mode vfile AND ModeDir \<noteq> 0)
                in
                if nodeIsDir \<noteq> vfileIsDir then (Panic errIsDirDisagreement, fs)
                else
                  (Ok (), fs\<lparr>heap := (heap fs)(p := (heap fs p)
                     \<lparr>err := Error vfile,
                      extra := (if \<not> vfileIsDir then Bytes (Content vfile) else extra (heap fs p)),
                      mode := Mode vfile\<rparr>)\<rparr>))))"

text \<open>
  \<open>NewVirtualFileSystem\<close>: Go ranges over the map in an unspecified order; the data is
  given here as the list of entries in the order the loop visits them. \<open>Set\<close> has no
  result to check, so only a panic ends the loop early.
\<close>

fun SetAll :: "VirtualFileSystem \<Rightarrow> (string \<times> VirtualFile) list \<Rightarrow> unit result \<times> VirtualFileSystem" where
  "SetAll fs [] = (Ok (), fs)"
| "SetAll fs ((nm, vfile) # entries) =
     (case Set_fs fs nm vfile of
        (Panic e, fs1) \<Rightarrow> (Panic e, fs1)
      | (_, fs1) \<Rightarrow> SetAll fs1 entries)"

definition NewVirtualFileSystem :: "(string \<times> VirtualFile) list \<Rightarrow> unit result \<times> VirtualFileSystem" where
  "NewVirtualFileSystem data =
     (case newDirNode \<lparr>cwd = ''/'', root = 0, heap = (\<lambda>_. \<lparr>err = None, extra = Bytes [], mode = 0, name = []\<rparr>), brk = 0\<rparr> 0 ''/'' of
        (r, fs) \<Rightarrow> SetAll (fs\<lparr>root := r\<rparr>) data)"

subsection \<open>Descriptors: Open, Stat, Read, Readdir\<close>

record virtualFileDescriptor =
  fd_node :: addr
  readPos :: int

text \<open>
  \<open>Read(p)\<close>: the buffer \<open>p\<close> is given as its bytes. A normal return is \<open>Ok (n, err, p')\<close>:
  the two results of the Go function and the buffer after \<open>copy\<close>; beside it stands the
  descriptor with its new \<open>readPos\<close>. The descriptor points to its node, so the content is
  read from the heap at the time of the call.
\<close>

definition Read ::
  "VirtualFileSystem \<Rightarrow> virtualFileDescriptor \<Rightarrow> string \<Rightarrow>
     (int \<times> error option \<times> string) result \<times> virtualFileDescriptor" where
  "Read fs r p =
     (if \<not> IsRegular (mode (heap fs (fd_node r))) then (Ok (0, Some errBadMode, p), r)
      else if length p > 0 then
        (case extra (heap fs (fd_node r)) of
           Nodes _ \<Rightarrow> (Panic runtimeTypeAssertion, r)
         | Bytes fileContents \<Rightarrow>
             if readPos r < 0 \<or> readPos r > int (length fileContents) then (Panic runtimeSliceBounds, r)
             else
               (let src = drop (nat (readPos r)) fileContents;
                    k = min (length p) (length src);
                    r' = r\<lparr>readPos := readPos r + int k\<rparr>
                in (Ok (int k, (if k = 0 then Some EOF else None), take k src @ drop k p), r')))
      else (Ok (0, None, p), r))"

text \<open>
  \<open>Readdir(n)\<close> returns the children as \<open>os.FileInfo\<close> values, which are the node pointers
  themselves; a nil slice and an empty slice are both the empty list.
\<close>

definition Readdir :: "VirtualFileSystem \<Rightarrow> virtualFileDescriptor \<Rightarrow> int \<Rightarrow> addr list result" where
  "Readdir fs r k =
     (if \<not> IsDir (mode (heap fs (fd_node r))) then Err ENOTDIR
      else if k > 0 then Panic errNotSupported
      else (case extra (heap fs (fd_node r)) of
              Bytes _ \<Rightarrow> Panic runtimeTypeAssertion
            | Nodes dir \<Rightarrow> if length dir = 0 then Ok [] else Ok dir))"

definition Open :: "VirtualFileSystem \<Rightarrow> string \<Rightarrow> virtualFileDescriptor result" where
  "Open fs nm =
     (case find_fs fs nm False True of
        (p, _, Ok _) \<Rightarrow> Ok \<lparr>fd_node = p, readPos = 0\<rparr>
      | (p, _, Err e) \<Rightarrow> Err e
      | (p, _, Panic e) \<Rightarrow> Panic e)"

definition Stat :: "VirtualFileSystem \<Rightarrow> string \<Rightarrow> addr result" where
  "Stat fs nm =
     (case find_fs fs nm False True of
        (p, _, Ok _) \<Rightarrow> Ok p
      | (p, _, Err e) \<Rightarrow> Err e
      | (p, _, Panic e) \<Rightarrow> Panic e)"

section \<open>Notions used to state the properties\<close>

text \<open>
  Nothing in this section is code of the repository. It names what the properties speak
  about: the components of a path, the node a path names, the nodes a walk stands on, a
  walk that comes back to where it was, and a run of \<open>Read\<close> calls.
\<close>

subsection \<open>Paths as lists of name components\<close>

text \<open>
  Both loops cut the name at each slash. \<open>splitSlash\<close> is \<open>strings.Split(s, "/")\<close> and
  \<open>joinSlash\<close> is \<open>strings.Join(cs, "/")\<close>; they state which components a path has.
\<close>

fun splitSlash :: "string \<Rightarrow> string list" where
  "splitSlash [] = [[]]"
| "splitSlash (x # xs) =
     (if x = CHR ''/'' then [] # splitSlash xs
      else (case splitSlash xs of [] \<Rightarrow> [[x]] | c # cs \<Rightarrow> (x # c) # cs))"

fun joinSlash :: "string list \<Rightarrow> string" where
  "joinSlash [] = []"
| "joinSlash [c] = c"
| "joinSlash (c # d # cs) = c @ CHR ''/'' # joinSlash (d # cs)"

text \<open>The components of the name that \<open>find\<close> walks: those of \<open>abs(name)[1:]\<close>.\<close>

definition components :: "VirtualFileSystem \<Rightarrow> string \<Rightarrow> string list" where
  "components fs nm = splitSlash (drop 1 (abs_path fs nm))"

text \<open>A name component that \<open>validateNameComp\<close> accepts and that a lookup is made for.\<close>

definition validName :: "string \<Rightarrow> bool" where
  "validName c = (c \<noteq> [] \<and> CHR ''/'' \<notin> set c \<and> c \<noteq> ''.'' \<and> c \<noteq> ''..'')"

text \<open>The components \<open>validateNameComp\<close> panics on.\<close>

definition dotted :: "string \<Rightarrow> bool" where
  "dotted c = (c = ''.'' \<or> c = ''..'')"

text \<open>The descriptor modes that \<open>Set\<close> does not reject with \<open>errBadMode\<close>.\<close>

definition validMode :: "FileMode \<Rightarrow> bool" where
  "validMode m =
     (m AND (ModeType AND NOT (if IsDir m then ModeDir
                               else if m AND ModeSymlink \<noteq> 0 then ModeSymlink else 0)) = 0)"

subsection \<open>The node a path names\<close>

text \<open>
  The spec's walk (section 4.2, step 3) for a path with no symlink on it: from a node, each
  non-empty component must find the node a directory and is looked up among its children
  by exact name; empty components are skipped. \<open>walkNames\<close> gives the nodes matched, in
  order, and \<open>None\<close> when a component is \<open>.\<close> or \<open>..\<close>, is missing, is looked up in a node
  that is no directory, or matches a symlink.
\<close>

fun walkNames :: "VirtualFileSystem \<Rightarrow> addr \<Rightarrow> string list \<Rightarrow> addr list option" where
  "walkNames fs p [] = Some []"
| "walkNames fs p (c # cs) =
     (if c = [] then walkNames fs p cs
      else if c = ''.'' \<or> c = ''..'' then None
      else if mode (heap fs p) AND ModeDir = 0 then None
      else (case extra (heap fs p) of
              Bytes _ \<Rightarrow> None
            | Nodes dir \<Rightarrow>
                (case List.find (\<lambda>k. name (heap fs k) = c) dir of
                   None \<Rightarrow> None
                 | Some k \<Rightarrow>
                     if mode (heap fs k) AND ModeSymlink \<noteq> 0 then None
                     else map_option ((#) k) (walkNames fs k cs))))"

subsection \<open>One iteration of the walk, the nodes it stands on, and repeated iterations\<close>

text \<open>
  One iteration of the loop of \<open>run\<close> after its injected-fault check: \<open>Inl\<close> is a return
  from \<open>run\<close>, \<open>Inr\<close> the helper the next iteration starts with. \<open>run_advance\<close> states that
  \<open>run\<close> is this iteration repeated.
\<close>

definition advance :: "VirtualFileSystem \<Rightarrow> findHelper \<Rightarrow> (findHelper \<times> unit result) + findHelper" where
  "advance fs f =
     (let slashPos = IndexByte (nameRem f) CHR ''/'';
          nameComp = getNameComp f slashPos
      in case getChildN fs f nameComp of
           Panic e \<Rightarrow> Inl (f, Panic e)
         | Err e \<Rightarrow> Inl (f, Err e)
         | Ok childN \<Rightarrow>
             (let f1 = updateNameRemFromSlashPos f slashPos in
              if nameComp \<noteq> [] then
                (case childN of
                   None \<Rightarrow> Inl (f1, Panic runtimeNilDeref)
                 | Some c \<Rightarrow>
                     (case updateFromChildN fs f1 c of
                        (f2, Ok _) \<Rightarrow> Inr f2
                      | (f2, Err e) \<Rightarrow> Inl (f2, Err e)
                      | (f2, Panic e) \<Rightarrow> Inl (f2, Panic e)))
              else Inr f1))"

lemma advance_measure:
  assumes "advance fs f = Inr f'" "nameRem f \<noteq> []"
  shows "((fs, f'), (fs, f)) \<in> measures [\<lambda>(fs, f). nat (256 - links f), \<lambda>(fs, f). length (nameRem f)]"
proof -
  let ?f1 = "updateNameRemFromSlashPos f (IndexByte (nameRem f) CHR ''/'')"
  have s: "length (nameRem ?f1) < length (nameRem f)" "links ?f1 = links f"
    using assms(2) updateNameRemFromSlashPos_shorter [of f "CHR ''/''"] by simp_all
  from assms(1) have "f' = ?f1 \<or> (\<exists>c u. updateFromChildN fs ?f1 c = (f', Ok u))"
    by (auto simp: advance_def Let_def split: result.splits option.splits prod.splits if_splits)
  then show ?thesis
  proof
    assume "f' = ?f1"
    with s show ?thesis by simp
  next
    assume "\<exists>c u. updateFromChildN fs ?f1 c = (f', Ok u)"
    then obtain c u where "updateFromChildN fs ?f1 c = (f', Ok u)" by blast
    from updateFromChildN_Ok [OF this] s show ?thesis by auto
  qed
qed

text \<open>
  The nodes the walk stands on, one for each injected-fault check that \<open>run\<close> makes when no
  check fails: the current node at the head of every iteration and after the loop. A
  symlink that the walk redirects through never becomes the current node.
\<close>

function visited :: "VirtualFileSystem \<Rightarrow> findHelper \<Rightarrow> addr list" where
  "visited fs f =
     (if nameRem f \<noteq> [] then
        cur f # (case advance fs f of Inl _ \<Rightarrow> [] | Inr f' \<Rightarrow> visited fs f')
      else [cur f])"
  by pat_completeness auto

termination
  by (relation "measures [\<lambda>(fs, f). nat (256 - links f), \<lambda>(fs, f). length (nameRem f)]")
     (auto dest: advance_measure)

declare visited.simps [simp del]

text \<open>The injected error of the first node of a list that carries one.\<close>

fun firstFault :: "VirtualFileSystem \<Rightarrow> addr list \<Rightarrow> error option" where
  "firstFault fs [] = None"
| "firstFault fs (p # ps) = (case err (heap fs p) of Some e \<Rightarrow> Some e | None \<Rightarrow> firstFault fs ps)"

text \<open>
  The helper after \<open>n\<close> iterations of the loop of \<open>run\<close>, when the loop runs that long:
  \<open>None\<close> when it ends or returns before.
\<close>

fun iter :: "VirtualFileSystem \<Rightarrow> nat \<Rightarrow> findHelper \<Rightarrow> findHelper option" where
  "iter fs 0 f = Some f"
| "iter fs (Suc n) f =
     (if nameRem f = [] then None
      else (case (if ignoreInjectedFaults f then None else err (heap fs (cur f))) of
              Some e \<Rightarrow> None
            | None \<Rightarrow> (case advance fs f of Inl _ \<Rightarrow> None | Inr f' \<Rightarrow> iter fs n f')))"

subsection \<open>Symlink cycles in the root\<close>

text \<open>
  Names in the root that lead around in circles: every name of \<open>S\<close> is a valid component
  that the root, a directory without injected error, holds as a symlink whose target is
  \<open>/\<close> followed by a name of \<open>S\<close> again. \<open>/x -> /y, /y -> /x\<close> is the case \<open>S = {x, y}\<close>.
\<close>

definition linkCycle :: "VirtualFileSystem \<Rightarrow> string set \<Rightarrow> bool" where
  "linkCycle fs S =
     (mode (heap fs (root fs)) AND ModeDir \<noteq> 0 \<and> err (heap fs (root fs)) = None \<and>
      (\<forall>z\<in>S. validName z \<and>
         (case dirLookup fs (root fs) z of
            Ok (Some a) \<Rightarrow>
              mode (heap fs a) AND ModeSymlink \<noteq> 0 \<and>
              (case extra (heap fs a) of
                 Bytes target \<Rightarrow> target \<noteq> [] \<and> hd target = CHR ''/'' \<and> tl target \<in> S
               | Nodes _ \<Rightarrow> False)
          | _ \<Rightarrow> False)))"

subsection \<open>Reading with a list of buffers\<close>


section \<open>Example file systems\<close>

text \<open>
  Descriptors and file systems for the concrete cases: a regular file with permission bits
  0644, a symlink, a directory with permission bits 0755; the empty file system and the
  file systems the constructor builds from a few entries.
\<close>

text \<open>A regular file with permission bits 0644, a symlink and a plain directory.\<close>

definition regularFile :: "string \<Rightarrow> VirtualFile" where
  "regularFile c = \<lparr>Content = c, Mode = 420, Error = None\<rparr>"

definition symlinkTo :: "string \<Rightarrow> VirtualFile" where
  "symlinkTo target = \<lparr>Content = target, Mode = ModeSymlink, Error = None\<rparr>"

definition dirPerm :: VirtualFile where
  "dirPerm = \<lparr>Content = [], Mode = ModeDir OR 493, Error = None\<rparr>"

definition emptyFS :: VirtualFileSystem where
  "emptyFS = snd (NewVirtualFileSystem [])"

text \<open>The spec's scenario: \<open>{"/dir/file.txt": {Content: "hello", Mode: RegularFile}}\<close>.\<close>

definition helloFS :: VirtualFileSystem where
  "helloFS = snd (NewVirtualFileSystem [(''/dir/file.txt'', regularFile ''hello'')])"

text \<open>\<open>{"/x": symlink to "/t"}\<close>.\<close>

definition linkFS :: VirtualFileSystem where
  "linkFS = snd (NewVirtualFileSystem [(''/x'', symlinkTo ''/t'')])"

text \<open>The empty file system after \<open>Set("/a/b", regular file)\<close>.\<close>

definition abFS :: VirtualFileSystem where
  "abFS = snd (Set_fs emptyFS ''/a/b'' (regularFile ''data''))"

text \<open>A directory \<open>/a\<close>, a file \<open>/a/b\<close> in it and a file \<open>/t\<close>, each with an injected error of its own.\<close>

definition faultFS :: VirtualFileSystem where
  "faultFS = snd (NewVirtualFileSystem
     [(''/a'', \<lparr>Content = [], Mode = ModeDir, Error = Some (Injected 7)\<rparr>),
      (''/a/b'', \<lparr>Content = ''data'', Mode = 420, Error = Some (Injected 8)\<rparr>),
      (''/t'', \<lparr>Content = ''text'', Mode = 420, Error = Some (Injected 9)\<rparr>)])"

text \<open>The cycle \<open>/x -> /y\<close>, \<open>/y -> /x\<close>.\<close>

definition cycleFS :: VirtualFileSystem where
  "cycleFS = snd (NewVirtualFileSystem [(''/x'', symlinkTo ''/y''), (''/y'', symlinkTo ''/x'')])"

section \<open>Lemmas\<close>

subsection \<open>Unfolding the loops one iteration at a time\<close>

lemma run_Nil:
  "nameRem f = [] \<Longrightarrow> run fs f =
     (case (if ignoreInjectedFaults f then None else err (heap fs (cur f))) of
        Some e \<Rightarrow> (f, Err e)
      | None \<Rightarrow> (f, Ok ()))"
  by (subst run.simps) simp

lemma run_Cons:
  "nameRem f = x # xs \<Longrightarrow> run fs f =
     (case (if ignoreInjectedFaults f then None else err (heap fs (cur f))) of
        Some e \<Rightarrow> (f, Err e)
      | None \<Rightarrow>
         (let slashPos = IndexByte (nameRem f) CHR ''/'';
              nameComp = getNameComp f slashPos
          in case getChildN fs f nameComp of
               Panic e \<Rightarrow> (f, Panic e)
             | Err e \<Rightarrow> (f, Err e)
             | Ok childN \<Rightarrow>
                 (let f1 = updateNameRemFromSlashPos f slashPos in
                  if nameComp \<noteq> [] then
                    (case childN of
                       None \<Rightarrow> (f1, Panic runtimeNilDeref)
                     | Some c \<Rightarrow>
                         (case updateFromChildN fs f1 c of
                            (f2, Ok _) \<Rightarrow> run fs f2
                          | (f2, Err e) \<Rightarrow> (f2, Err e)
                          | (f2, Panic e) \<Rightarrow> (f2, Panic e)))
                  else run fs f1)))"
  by (subst run.simps) simp

lemma run_nonempty:
  "nameRem f \<noteq> [] \<Longrightarrow> run fs f =
     (case (if ignoreInjectedFaults f then None else err (heap fs (cur f))) of
        Some e \<Rightarrow> (f, Err e)
      | None \<Rightarrow>
         (let slashPos = IndexByte (nameRem f) CHR ''/'';
              nameComp = getNameComp f slashPos
          in case getChildN fs f nameComp of
               Panic e \<Rightarrow> (f, Panic e)
             | Err e \<Rightarrow> (f, Err e)
             | Ok childN \<Rightarrow>
                 (let f1 = updateNameRemFromSlashPos f slashPos in
                  if nameComp \<noteq> [] then
                    (case childN of
                       None \<Rightarrow> (f1, Panic runtimeNilDeref)
                     | Some c \<Rightarrow>
                         (case updateFromChildN fs f1 c of
                            (f2, Ok _) \<Rightarrow> run fs f2
                          | (f2, Err e) \<Rightarrow> (f2, Err e)
                          | (f2, Panic e) \<Rightarrow> (f2, Panic e)))
                  else run fs f1)))"
  by (subst run.simps) simp

lemma run_advance:
  "run fs f =
     (if nameRem f \<noteq> [] then
        (case (if ignoreInjectedFaults f then None else err (heap fs (cur f))) of
           Some e \<Rightarrow> (f, Err e)
         | None \<Rightarrow> (case advance fs f of Inl res \<Rightarrow> res | Inr f' \<Rightarrow> run fs f'))
      else (case (if ignoreInjectedFaults f then None else err (heap fs (cur f))) of
              Some e \<Rightarrow> (f, Err e)
            | None \<Rightarrow> (f, Ok ())))"
  by (subst run.simps)
     (auto simp: advance_def Let_def split: option.splits result.splits prod.splits)

lemma visited_Nil: "nameRem f = [] \<Longrightarrow> visited fs f = [cur f]"
  by (subst visited.simps) simp

lemma visited_nonempty:
  "nameRem f \<noteq> [] \<Longrightarrow>
   visited fs f = cur f # (case advance fs f of Inl _ \<Rightarrow> [] | Inr f' \<Rightarrow> visited fs f')"
  by (subst visited.simps) simp

lemmas mode_defs = ModeDir_def ModeSymlink_def ModeDevice_def ModeNamedPipe_def ModeSocket_def
  ModeCharDevice_def ModeIrregular_def ModeType_def IsDir_def IsRegular_def

lemmas eval_defs = run_Nil run_Cons find_fs_def Set_fs_def abs_path_def getChildN_def
  getNameComp_def updateNameRemFromSlashPos_def updateFromChildN_def validateNameComp_def
  dirLookup_def dirAppend_def alloc_def newDirNode_def NewVirtualFileSystem_def
  createChildren.simps Let_def mode_defs Open_def Stat_def

subsection \<open>The example file systems, evaluated\<close>

lemma emptyFS_simps:
  "fst (NewVirtualFileSystem []) = Ok ()"
  "cwd emptyFS = ''/''" "root emptyFS = 0" "brk emptyFS = Suc 0"
  "heap emptyFS 0 = \<lparr>err = None, extra = Nodes [], mode = ModeDir, name = ''/''\<rparr>"
  by (simp_all add: emptyFS_def eval_defs)

lemma helloFS_simps:
  "fst (NewVirtualFileSystem [(''/dir/file.txt'', regularFile ''hello'')]) = Ok ()"
  "cwd helloFS = ''/''" "root helloFS = 0" "brk helloFS = Suc (Suc (Suc 0))"
  "heap helloFS 0 = \<lparr>err = None, extra = Nodes [Suc 0], mode = ModeDir, name = ''/''\<rparr>"
  "heap helloFS (Suc 0) = \<lparr>err = None, extra = Nodes [Suc (Suc 0)], mode = ModeDir, name = ''dir''\<rparr>"
  "heap helloFS (Suc (Suc 0)) = \<lparr>err = None, extra = Bytes ''hello'', mode = 420, name = ''file.txt''\<rparr>"
  by (simp_all add: helloFS_def eval_defs regularFile_def)

lemma linkFS_simps:
  "fst (NewVirtualFileSystem [(''/x'', symlinkTo ''/t'')]) = Ok ()"
  "cwd linkFS = ''/''" "root linkFS = 0" "brk linkFS = Suc (Suc 0)"
  "heap linkFS 0 = \<lparr>err = None, extra = Nodes [Suc 0], mode = ModeDir, name = ''/''\<rparr>"
  "heap linkFS (Suc 0) = \<lparr>err = None, extra = Bytes ''/t'', mode = ModeSymlink, name = ''x''\<rparr>"
  by (simp_all add: linkFS_def eval_defs symlinkTo_def)

lemma abFS_simps:
  "fst (Set_fs emptyFS ''/a/b'' (regularFile ''data'')) = Ok ()"
  "cwd abFS = ''/''" "root abFS = 0" "brk abFS = Suc (Suc (Suc 0))"
  "heap abFS 0 = \<lparr>err = None, extra = Nodes [Suc 0], mode = ModeDir, name = ''/''\<rparr>"
  "heap abFS (Suc 0) = \<lparr>err = None, extra = Nodes [Suc (Suc 0)], mode = ModeDir, name = ''a''\<rparr>"
  "heap abFS (Suc (Suc 0)) = \<lparr>err = None, extra = Bytes ''data'', mode = 420, name = ''b''\<rparr>"
  by (simp_all add: abFS_def emptyFS_simps eval_defs regularFile_def)

lemma faultFS_simps:
  "fst (NewVirtualFileSystem
     [(''/a'', \<lparr>Content = [], Mode = ModeDir, Error = Some (Injected 7)\<rparr>),
      (''/a/b'', \<lparr>Content = ''data'', Mode = 420, Error = Some (Injected 8)\<rparr>),
      (''/t'', \<lparr>Content = ''text'', Mode = 420, Error = Some (Injected 9)\<rparr>)]) = Ok ()"
  "cwd faultFS = ''/''" "root faultFS = 0"
  "heap faultFS 0 = \<lparr>err = None, extra = Nodes [Suc 0, Suc (Suc (Suc 0))], mode = ModeDir, name = ''/''\<rparr>"
  "heap faultFS (Suc 0) = \<lparr>err = Some (Injected 7), extra = Nodes [Suc (Suc 0)], mode = ModeDir, name = ''a''\<rparr>"
  "heap faultFS (Suc (Suc 0)) = \<lparr>err = Some (Injected 8), extra = Bytes ''data'', mode = 420, name = ''b''\<rparr>"
  "heap faultFS (Suc (Suc (Suc 0))) = \<lparr>err = Some (Injected 9), extra = Bytes ''text'', mode = 420, name = ''t''\<rparr>"
  by (simp_all add: faultFS_def eval_defs)

lemma cycleFS_simps:
  "fst (NewVirtualFileSystem [(''/x'', symlinkTo ''/y''), (''/y'', symlinkTo ''/x'')]) = Ok ()"
  "cwd cycleFS = ''/''" "root cycleFS = 0"
  "heap cycleFS 0 = \<lparr>err = None, extra = Nodes [Suc 0, Suc (Suc 0)], mode = ModeDir, name = ''/''\<rparr>"
  "heap cycleFS (Suc 0) = \<lparr>err = None, extra = Bytes ''/y'', mode = ModeSymlink, name = ''x''\<rparr>"
  "heap cycleFS (Suc (Suc 0)) = \<lparr>err = None, extra = Bytes ''/x'', mode = ModeSymlink, name = ''y''\<rparr>"
  by (simp_all add: cycleFS_def eval_defs symlinkTo_def)

subsection \<open>Splitting and joining at slashes\<close>

lemma IndexByte_notin: "c \<notin> set s \<Longrightarrow> IndexByte s c = - 1"
  by (induction s) (auto simp: Let_def)

lemma IndexByte_append: "c \<notin> set s \<Longrightarrow> IndexByte (s @ c # r) c = int (length s)"
  by (induction s) (auto simp: Let_def)

lemma splitSlash_nonempty [simp]: "splitSlash s \<noteq> []"
  by (induction s) (auto split: list.splits)

lemma joinSlash_splitSlash [simp]: "joinSlash (splitSlash s) = s"
proof (induction s)
  case Nil
  show ?case by simp
next
  case (Cons x xs)
  obtain c cs where sp: "splitSlash xs = c # cs"
    by (cases "splitSlash xs") auto
  with Cons show ?case
    by (cases cs) auto
qed

lemma splitSlash_slashfree: "c \<in> set (splitSlash s) \<Longrightarrow> CHR ''/'' \<notin> set c"
  by (induction s arbitrary: c) (auto split: list.splits if_splits)

lemma splitSlash_append:
  "splitSlash (s @ CHR ''/'' # t) = splitSlash s @ splitSlash t"
  by (induction s) (auto split: list.splits)

lemma joinSlash_Cons:
  "cs \<noteq> [] \<Longrightarrow> joinSlash (c # cs) = c @ CHR ''/'' # joinSlash cs"
  by (cases cs) auto

lemma splitSlash_no_slash: "CHR ''/'' \<notin> set c \<Longrightarrow> splitSlash c = [c]"
  by (induction c) auto


lemma joinSlash_dotted_nonempty:
  "\<exists>c\<in>set cs. dotted c \<Longrightarrow> joinSlash cs \<noteq> []"
  by (induction cs rule: joinSlash.induct) (auto simp: dotted_def)

lemma abs_path_append:
  "nm \<noteq> [] \<Longrightarrow> abs_path fs (nm @ s) = abs_path fs nm @ s"
  by (cases nm) (auto simp: abs_path_def)

lemma abs_path_nonempty: "nm \<noteq> [] \<Longrightarrow> abs_path fs nm \<noteq> []"
  by (auto simp: abs_path_def)

lemma components_append:
  assumes "nm \<noteq> []" "CHR ''/'' \<notin> set c"
  shows "components fs (nm @ CHR ''/'' # c) = components fs nm @ [c]"
proof -
  have "drop 1 (abs_path fs nm @ CHR ''/'' # c) = drop 1 (abs_path fs nm) @ CHR ''/'' # c"
    using abs_path_nonempty [OF assms(1), of fs] by (cases "abs_path fs nm") auto
  then show ?thesis
    using assms by (simp add: components_def abs_path_append splitSlash_append splitSlash_no_slash)
qed

lemma find_fs_run:
  "abs_path fs nm \<noteq> [] \<Longrightarrow>
   find_fs fs nm ig rs =
     (case run fs \<lparr>ignoreInjectedFaults = ig, links = 0, nameRem = joinSlash (components fs nm),
                   cur = root fs, resolveSymlinks = rs\<rparr> of
        (f, r) \<Rightarrow> (cur f, nameRem f, r))"
  by (cases "abs_path fs nm") (auto simp: find_fs_def components_def)

subsection \<open>Modes\<close>

lemma ModeDir_no_symlink: "ModeDir AND ModeSymlink = 0"
  by (simp add: mode_defs)

lemma IsRegular_bits:
  assumes "IsRegular m"
  shows "m AND ModeDir = 0" "m AND ModeSymlink = 0"
proof -
  have d: "ModeType AND ModeDir = ModeDir" and s: "ModeType AND ModeSymlink = ModeSymlink"
    by (simp_all add: mode_defs)
  have "m AND ModeDir = (m AND ModeType) AND ModeDir"
    by (simp add: and.assoc d)
  then show "m AND ModeDir = 0" using assms by (simp add: IsRegular_def)
  have "m AND ModeSymlink = (m AND ModeType) AND ModeSymlink"
    by (simp add: and.assoc s)
  then show "m AND ModeSymlink = 0" using assms by (simp add: IsRegular_def)
qed

lemma IsRegular_validMode: "IsRegular m \<Longrightarrow> validMode m"
  using IsRegular_bits [of m]
  by (simp add: validMode_def IsDir_def) (simp add: IsRegular_def)

subsection \<open>The walk along a path without symlinks\<close>

lemma nat_int_add1 [simp]: "nat (int n + 1) = Suc n"
  by simp

lemma run_walkNames:
  assumes "walkNames fs p cs = Some ns"
    and "\<forall>c\<in>set cs. CHR ''/'' \<notin> set c"
    and "ig \<or> (\<forall>q\<in>set (p # ns). err (heap fs q) = None)"
  shows "run fs \<lparr>ignoreInjectedFaults = ig, links = l, nameRem = joinSlash (cs @ rest), cur = p, resolveSymlinks = rs\<rparr>
       = run fs \<lparr>ignoreInjectedFaults = ig, links = l, nameRem = joinSlash rest, cur = last (p # ns), resolveSymlinks = rs\<rparr>"
  using assms
proof (induction cs arbitrary: p ns)
  case Nil
  then show ?case by simp
next
  case (Cons c cs)
  show ?case
  proof (cases "c = []")
    case True
    with Cons.prems have w: "walkNames fs p cs = Some ns" by simp
    have IH: "run fs \<lparr>ignoreInjectedFaults = ig, links = l, nameRem = joinSlash (cs @ rest), cur = p, resolveSymlinks = rs\<rparr>
       = run fs \<lparr>ignoreInjectedFaults = ig, links = l, nameRem = joinSlash rest, cur = last (p # ns), resolveSymlinks = rs\<rparr>"
    proof (rule Cons.IH [OF w])
      show "\<forall>c\<in>set cs. CHR ''/'' \<notin> set c" using Cons.prems by simp
      show "ig \<or> (\<forall>q\<in>set (p # ns). err (heap fs q) = None)" using Cons.prems by auto
    qed
    show ?thesis
    proof (cases "cs @ rest = []")
      case e: True
      with True w show ?thesis by simp
    next
      case ne: False
      have nr: "joinSlash ((c # cs) @ rest) = CHR ''/'' # joinSlash (cs @ rest)"
        using True joinSlash_Cons [OF ne, of c] by simp
      have pf: "ig \<or> err (heap fs p) = None" using Cons.prems by auto
      show ?thesis
        unfolding nr using pf IH
        by (subst run_nonempty)
           (auto simp: getNameComp_def getChildN_def updateNameRemFromSlashPos_def Let_def)
    qed
  next
    case False
    from Cons.prems False obtain dir k ns' where
      v: "c \<noteq> ''.''" "c \<noteq> ''..''" "mode (heap fs p) AND ModeDir \<noteq> 0"
      and d: "extra (heap fs p) = Nodes dir" "List.find (\<lambda>k. name (heap fs k) = c) dir = Some k"
      and k: "mode (heap fs k) AND ModeSymlink = 0" "walkNames fs k cs = Some ns'" "ns = k # ns'"
      by (auto split: if_splits payload.splits option.splits)
    have sf: "CHR ''/'' \<notin> set c" using Cons.prems by simp
    have IH: "run fs \<lparr>ignoreInjectedFaults = ig, links = l, nameRem = joinSlash (cs @ rest), cur = k, resolveSymlinks = rs\<rparr>
       = run fs \<lparr>ignoreInjectedFaults = ig, links = l, nameRem = joinSlash rest, cur = last (k # ns'), resolveSymlinks = rs\<rparr>"
    proof (rule Cons.IH [OF k(2)])
      show "\<forall>c\<in>set cs. CHR ''/'' \<notin> set c" using Cons.prems by simp
      show "ig \<or> (\<forall>q\<in>set (k # ns'). err (heap fs q) = None)" using Cons.prems k(3) by auto
    qed
    have pf: "ig \<or> err (heap fs p) = None" using Cons.prems by auto
    have step: "run fs \<lparr>ignoreInjectedFaults = ig, links = l, nameRem = joinSlash ((c # cs) @ rest), cur = p, resolveSymlinks = rs\<rparr>
       = run fs \<lparr>ignoreInjectedFaults = ig, links = l, nameRem = joinSlash (cs @ rest), cur = k, resolveSymlinks = rs\<rparr>"
    proof (cases "cs @ rest = []")
      case True
      then have nr: "joinSlash ((c # cs) @ rest) = c" by simp
      show ?thesis
        unfolding nr using pf False v d k(1) sf True
        by (subst run_nonempty)
           (auto simp: getNameComp_def getChildN_def updateNameRemFromSlashPos_def Let_def
              IndexByte_notin validateNameComp_def dirLookup_def updateFromChildN_def)
    next
      case ne: False
      have nr: "joinSlash ((c # cs) @ rest) = c @ CHR ''/'' # joinSlash (cs @ rest)"
        using joinSlash_Cons [OF ne, of c] by simp
      show ?thesis
        unfolding nr using pf False v d k(1) sf
        by (subst run_nonempty)
           (auto simp: getNameComp_def getChildN_def updateNameRemFromSlashPos_def Let_def
              IndexByte_append validateNameComp_def dirLookup_def updateFromChildN_def)
    qed
    show ?thesis unfolding step IH k(3) by simp
  qed
qed

lemma find_fs_walkNames:
  assumes "abs_path fs nm \<noteq> []"
    and "walkNames fs (root fs) (components fs nm) = Some ns"
    and "ig \<or> (\<forall>q\<in>set (root fs # ns). err (heap fs q) = None)"
  shows "find_fs fs nm ig rs = (last (root fs # ns), [], Ok ())"
proof -
  obtain x r where a: "abs_path fs nm = x # r"
    using assms(1) by (cases "abs_path fs nm") auto
  have c: "components fs nm = splitSlash r" by (simp add: components_def a)
  have "run fs \<lparr>ignoreInjectedFaults = ig, links = 0, nameRem = joinSlash (splitSlash r @ []), cur = root fs, resolveSymlinks = rs\<rparr>
      = run fs \<lparr>ignoreInjectedFaults = ig, links = 0, nameRem = joinSlash [], cur = last (root fs # ns), resolveSymlinks = rs\<rparr>"
    using assms(2,3) unfolding c
    by (intro run_walkNames) (auto dest: splitSlash_slashfree)
  moreover have "ig \<or> err (heap fs (last (root fs # ns))) = None"
    using assms(3) last_in_set [of "root fs # ns"] by auto
  ultimately show ?thesis
    by (auto simp: find_fs_def a run_Nil)
qed

lemma run_not_directory:
  assumes "validName c" "mode (heap fs p) AND ModeDir = 0" "ig \<or> err (heap fs p) = None"
  shows "run fs \<lparr>ignoreInjectedFaults = ig, links = l, nameRem = c, cur = p, resolveSymlinks = rs\<rparr>
       = (\<lparr>ignoreInjectedFaults = ig, links = l, nameRem = c, cur = p, resolveSymlinks = rs\<rparr>, Err ENOTDIR)"
  using assms
  by (subst run_nonempty)
     (auto simp: validName_def getNameComp_def getChildN_def IndexByte_notin validateNameComp_def)


lemma helloFS_chain:
  "abs_path helloFS ''/dir/file.txt'' \<noteq> []"
  "walkNames helloFS (root helloFS) (components helloFS ''/dir/file.txt'') = Some [Suc 0, Suc (Suc 0)]"
  "abs_path helloFS ''/dir'' \<noteq> []"
  "walkNames helloFS (root helloFS) (components helloFS ''/dir'') = Some [Suc 0]"
  by (simp_all add: helloFS_simps components_def abs_path_def mode_defs)

subsection \<open>Children made by createChildren\<close>

lemma createChildren_leaf:
  assumes "CHR ''/'' \<notin> set c" "c \<noteq> []" "c \<noteq> ''.''" "c \<noteq> ''..''"
    and "extra (heap fs p) = Nodes dir" "p \<noteq> brk fs"
  shows "createChildren fs p c vfile =
     (Ok (), fs\<lparr>heap := (heap fs)
        (brk fs := \<lparr>err = Error vfile,
                    extra = (if Mode vfile AND ModeDir = 0 then Bytes (Content vfile) else Nodes []),
                    mode = Mode vfile, name = c\<rparr>,
         p := (heap fs p)\<lparr>extra := Nodes (dir @ [brk fs])\<rparr>),
       brk := Suc (brk fs)\<rparr>)"
  using assms
  by (subst createChildren.simps)
     (simp add: IndexByte_notin validateNameComp_def alloc_def dirAppend_def Let_def)




subsection \<open>Reading a regular file\<close>




subsection \<open>Injected errors met on the walk\<close>

lemma updateFromChildN_ignore:
  "updateFromChildN fs f c = (f2, r) \<Longrightarrow> ignoreInjectedFaults f2 = ignoreInjectedFaults f"
  by (auto simp: updateFromChildN_def Let_def split: if_splits payload.splits)

lemma advance_ignore:
  "advance fs f = Inr f' \<Longrightarrow> ignoreInjectedFaults f' = ignoreInjectedFaults f"
  by (auto simp: advance_def Let_def updateNameRemFromSlashPos_def
      split: result.splits option.splits prod.splits if_splits dest: updateFromChildN_ignore)

lemma run_firstFault:
  "\<not> ignoreInjectedFaults f \<Longrightarrow> firstFault fs (visited fs f) = Some E \<Longrightarrow> snd (run fs f) = Err E"
proof (induction fs f rule: visited.induct)
  case (1 fs f)
  show ?case
  proof (cases "nameRem f = []")
    case True
    with "1.prems" show ?thesis
      by (subst run_advance) (auto simp: visited.simps [of fs f] split: option.splits)
  next
    case ne: False
    show ?thesis
    proof (cases "err (heap fs (cur f))")
      case (Some e)
      with "1.prems" ne show ?thesis
        by (subst run_advance) (auto simp: visited.simps [of fs f])
    next
      case None
      with "1.prems" ne obtain f' where a: "advance fs f = Inr f'"
        and ff: "firstFault fs (visited fs f') = Some E"
        by (cases "advance fs f") (auto simp: visited.simps [of fs f])
      have "snd (run fs f') = Err E"
        using "1.IH" [OF ne a] advance_ignore [OF a] "1.prems"(1) ff by simp
      then show ?thesis
        using None ne a "1.prems"(1) by (subst run_advance) simp
    qed
  qed
qed

lemma faultFS_visited:
  "visited faultFS \<lparr>ignoreInjectedFaults = False, links = 0,
           nameRem = drop 1 (abs_path faultFS ''/t''), cur = root faultFS, resolveSymlinks = True\<rparr>
     = [0, Suc (Suc (Suc 0))]"
  "visited faultFS \<lparr>ignoreInjectedFaults = False, links = 0,
           nameRem = drop 1 (abs_path faultFS ''/a/b''), cur = root faultFS, resolveSymlinks = True\<rparr>
     = [0, Suc 0, Suc (Suc 0)]"
  by (simp_all add: faultFS_simps visited_Nil visited_nonempty advance_def eval_defs)

text \<open>The same along the chain of nodes of a path without symlinks.\<close>

lemma run_fault_here:
  "err (heap fs (cur f)) = Some E \<Longrightarrow> \<not> ignoreInjectedFaults f \<Longrightarrow> run fs f = (f, Err E)"
  by (subst run_advance) simp

lemma run_walkNames_fault:
  assumes "walkNames fs p cs = Some ns"
    and "\<forall>c\<in>set cs. CHR ''/'' \<notin> set c"
    and "firstFault fs (p # ns) = Some E"
  shows "snd (run fs \<lparr>ignoreInjectedFaults = False, links = l, nameRem = joinSlash cs, cur = p, resolveSymlinks = rs\<rparr>)
       = Err E"
  using assms
proof (induction cs arbitrary: p ns)
  case Nil
  then show ?case by (simp add: run_Nil split: option.splits)
next
  case (Cons c cs)
  let ?f = "\<lparr>ignoreInjectedFaults = False, links = l, nameRem = joinSlash (c # cs), cur = p, resolveSymlinks = rs\<rparr>"
  show ?case
  proof (cases "err (heap fs p)")
    case (Some e)
    with Cons.prems(3) have "e = E" by simp
    with Some show ?thesis by (simp add: run_fault_here)
  next
    case None
    with Cons.prems(3) have ff: "firstFault fs ns = Some E" by simp
    have sf: "CHR ''/'' \<notin> set c" "\<forall>c\<in>set cs. CHR ''/'' \<notin> set c" using Cons.prems(2) by simp_all
    show ?thesis
    proof (cases "c = []")
      case True
      with Cons.prems have w: "walkNames fs p cs = Some ns" by simp
      have ffp: "firstFault fs (p # ns) = Some E" using ff None by simp
      have csne: "cs \<noteq> []" using w ff by (cases cs) auto
      have "run fs ?f = run fs \<lparr>ignoreInjectedFaults = False, links = l, nameRem = joinSlash cs, cur = p, resolveSymlinks = rs\<rparr>"
        using True None
        by (subst run_nonempty)
           (auto simp: joinSlash_Cons [OF csne] getNameComp_def getChildN_def updateNameRemFromSlashPos_def Let_def)
      with Cons.IH [OF w sf(2) ffp] show ?thesis by simp
    next
      case False
      from Cons.prems(1) False obtain dir k ns' where
        v: "c \<noteq> ''.''" "c \<noteq> ''..''" "mode (heap fs p) AND ModeDir \<noteq> 0"
        and d: "extra (heap fs p) = Nodes dir" "List.find (\<lambda>k. name (heap fs k) = c) dir = Some k"
        and k: "mode (heap fs k) AND ModeSymlink = 0" "walkNames fs k cs = Some ns'" "ns = k # ns'"
        by (auto split: if_splits payload.splits option.splits)
      have ffk: "firstFault fs (k # ns') = Some E" using ff k(3) by simp
      have "run fs ?f = run fs \<lparr>ignoreInjectedFaults = False, links = l, nameRem = joinSlash cs, cur = k, resolveSymlinks = rs\<rparr>"
      proof (cases "cs = []")
        case True
        show ?thesis
          using None False v d k(1) sf True
          by (subst run_nonempty)
             (auto simp: getNameComp_def getChildN_def updateNameRemFromSlashPos_def Let_def
                IndexByte_notin validateNameComp_def dirLookup_def updateFromChildN_def)
      next
        case ne: False
        show ?thesis
          using None False v d k(1) sf
          by (subst run_nonempty)
             (auto simp: joinSlash_Cons [OF ne] getNameComp_def getChildN_def updateNameRemFromSlashPos_def Let_def
                IndexByte_append validateNameComp_def dirLookup_def updateFromChildN_def)
      qed
      with Cons.IH [OF k(2) sf(2) ffk] show ?thesis by simp
    qed
  qed
qed

subsection \<open>The link counter and walks that repeat\<close>

lemma updateFromChildN_links:
  assumes "updateFromChildN fs f c = (f2, r)" "links f \<le> 255"
  shows "links f2 \<le> 256 \<and> (255 < links f2 \<longrightarrow> r = Err errTooManyLinks) \<and> (r = Ok () \<longrightarrow> links f2 \<le> 255)"
  using assms by (auto simp: updateFromChildN_def Let_def split: if_splits payload.splits)

lemma advance_links_Inl:
  assumes "advance fs f = Inl (f', r)" "links f \<le> 255"
  shows "links f' \<le> 256 \<and> (255 < links f' \<longrightarrow> r = Err errTooManyLinks)"
proof -
  let ?f1 = "updateNameRemFromSlashPos f (IndexByte (nameRem f) CHR ''/'')"
  from assms(1) have "links f' = links f \<or> (\<exists>c. updateFromChildN fs ?f1 c = (f', r))"
    by (auto simp: advance_def Let_def split: result.splits option.splits prod.splits if_splits)
  then show ?thesis
  proof
    assume "links f' = links f"
    with assms(2) show ?thesis by simp
  next
    assume "\<exists>c. updateFromChildN fs ?f1 c = (f', r)"
    then obtain c where "updateFromChildN fs ?f1 c = (f', r)" by blast
    from updateFromChildN_links [OF this] assms(2) show ?thesis by simp
  qed
qed

lemma advance_links_Inr:
  assumes "advance fs f = Inr f'" "links f \<le> 255"
  shows "links f' \<le> 255"
proof -
  let ?f1 = "updateNameRemFromSlashPos f (IndexByte (nameRem f) CHR ''/'')"
  from assms(1) have "f' = ?f1 \<or> (\<exists>c. updateFromChildN fs ?f1 c = (f', Ok ()))"
    by (auto simp: advance_def Let_def split: result.splits option.splits prod.splits if_splits)
  then show ?thesis
  proof
    assume "f' = ?f1"
    with assms(2) show ?thesis by simp
  next
    assume "\<exists>c. updateFromChildN fs ?f1 c = (f', Ok ())"
    then obtain c where "updateFromChildN fs ?f1 c = (f', Ok ())" by blast
    from updateFromChildN_links [OF this] assms(2) show ?thesis by simp
  qed
qed

lemma run_links_bound:
  "links f \<le> 255 \<Longrightarrow>
   links (fst (run fs f)) \<le> 256 \<and> (255 < links (fst (run fs f)) \<longrightarrow> snd (run fs f) = Err errTooManyLinks)"
proof (induction fs f rule: visited.induct)
  case (1 fs f)
  show ?case
  proof (cases "nameRem f = []")
    case True
    with "1.prems" show ?thesis
      by (subst (1 2 3) run_advance) (auto split: option.splits)
  next
    case ne: False
    show ?thesis
    proof (cases "if ignoreInjectedFaults f then None else err (heap fs (cur f))")
      case (Some e)
      with "1.prems" ne show ?thesis
        by (subst (1 2 3) run_advance) simp
    next
      case None
      show ?thesis
      proof (cases "advance fs f")
        case (Inl res)
        obtain f' r where res: "res = (f', r)" by (cases res)
        from advance_links_Inl [OF Inl [unfolded res] "1.prems"] None ne Inl res
        show ?thesis
          by (subst (1 2 3) run_advance) simp
      next
        case (Inr f')
        from "1.IH" [OF ne Inr advance_links_Inr [OF Inr "1.prems"]] None ne Inr
        show ?thesis
          by (subst (1 2 3) run_advance) simp
      qed
    qed
  qed
qed

lemma run_empty_component:
  "links (fst (run fs (f\<lparr>nameRem := CHR ''/'' # r\<rparr>))) = links (fst (run fs (f\<lparr>nameRem := r\<rparr>)))
   \<and> cur (fst (run fs (f\<lparr>nameRem := CHR ''/'' # r\<rparr>))) = cur (fst (run fs (f\<lparr>nameRem := r\<rparr>)))
   \<and> snd (run fs (f\<lparr>nameRem := CHR ''/'' # r\<rparr>)) = snd (run fs (f\<lparr>nameRem := r\<rparr>))"
proof (cases "if ignoreInjectedFaults f then None else err (heap fs (cur f))")
  case None
  then have "run fs (f\<lparr>nameRem := CHR ''/'' # r\<rparr>) = run fs (f\<lparr>nameRem := r\<rparr>)"
    by (subst run_nonempty)
       (auto simp: getNameComp_def getChildN_def updateNameRemFromSlashPos_def Let_def)
  then show ?thesis by simp
next
  case (Some e)
  then have "run fs (f\<lparr>nameRem := CHR ''/'' # r\<rparr>) = (f\<lparr>nameRem := CHR ''/'' # r\<rparr>, Err e)"
    by (subst run_nonempty) auto
  moreover from Some have "run fs (f\<lparr>nameRem := r\<rparr>) = (f\<lparr>nameRem := r\<rparr>, Err e)"
    by (subst run_advance) auto
  ultimately show ?thesis by simp
qed

lemma run_iter: "iter fs n f = Some f' \<Longrightarrow> run fs f = run fs f'"
proof (induction n arbitrary: f)
  case 0
  then show ?case by simp
next
  case (Suc n)
  from Suc.prems obtain f1 where ne: "nameRem f \<noteq> []"
    and nf: "(if ignoreInjectedFaults f then None else err (heap fs (cur f))) = None"
    and a: "advance fs f = Inr f1" and i: "iter fs n f1 = Some f'"
    by (auto split: if_splits option.splits sum.splits)
  have "run fs f = run fs f1"
    using ne nf a by (subst run_advance) simp
  with Suc.IH [OF i] show ?case by simp
qed

lemma updateFromChildN_shift:
  assumes "updateFromChildN fs f c = (f2, Ok ())" "0 \<le> d"
  shows "updateFromChildN fs (f\<lparr>links := links f + d\<rparr>) c = (f2\<lparr>links := links f2 + d\<rparr>, Ok ())
       \<or> (\<exists>f3. updateFromChildN fs (f\<lparr>links := links f + d\<rparr>) c = (f3, Err errTooManyLinks))"
  using assms
  by (auto simp: updateFromChildN_def Let_def split: if_splits payload.splits)

lemma advance_shift:
  assumes "advance fs f = Inr f1" "0 \<le> d"
  shows "advance fs (f\<lparr>links := links f + d\<rparr>) = Inr (f1\<lparr>links := links f1 + d\<rparr>)
       \<or> (\<exists>f3. advance fs (f\<lparr>links := links f + d\<rparr>) = Inl (f3, Err errTooManyLinks))"
proof -
  let ?sp = "IndexByte (nameRem f) CHR ''/''"
  let ?f1 = "updateNameRemFromSlashPos f ?sp"
  let ?g = "f\<lparr>links := links f + d\<rparr>"
  have g1: "updateNameRemFromSlashPos ?g ?sp = ?f1\<lparr>links := links ?f1 + d\<rparr>"
    by (simp add: updateNameRemFromSlashPos_def)
  have gc: "getChildN fs ?g nc = getChildN fs f nc" for nc
    by (simp add: getChildN_def split: option.splits)
  have gn: "getNameComp ?g ?sp = getNameComp f ?sp"
    by (simp add: getNameComp_def)
  from assms(1) consider (skip) "getNameComp f ?sp = []" "getChildN fs f (getNameComp f ?sp) = Ok None" "f1 = ?f1"
    | (child) c where "getNameComp f ?sp \<noteq> []" "getChildN fs f (getNameComp f ?sp) = Ok (Some c)"
        "updateFromChildN fs ?f1 c = (f1, Ok ())"
    by (auto simp: advance_def Let_def getChildN_def split: result.splits option.splits prod.splits if_splits)
  then show ?thesis
  proof cases
    case skip
    then show ?thesis
      by (simp add: advance_def Let_def gn gc g1)
  next
    case child
    from updateFromChildN_shift [OF child(3) assms(2)]
    show ?thesis
      using child(1,2) by (auto simp: advance_def Let_def gn gc g1)
  qed
qed

lemma iter_shift:
  assumes "iter fs n f = Some f'" "0 \<le> d"
  shows "iter fs n (f\<lparr>links := links f + d\<rparr>) = Some (f'\<lparr>links := links f' + d\<rparr>)
       \<or> snd (run fs (f\<lparr>links := links f + d\<rparr>)) = Err errTooManyLinks"
  using assms(1)
proof (induction n arbitrary: f)
  case 0
  then show ?case by simp
next
  case (Suc n)
  let ?g = "f\<lparr>links := links f + d\<rparr>"
  from Suc.prems obtain f1 where ne: "nameRem f \<noteq> []"
    and nf: "(if ignoreInjectedFaults f then None else err (heap fs (cur f))) = None"
    and a: "advance fs f = Inr f1" and i: "iter fs n f1 = Some f'"
    by (auto split: if_splits option.splits sum.splits)
  have gne: "nameRem ?g \<noteq> []" and gnf: "(if ignoreInjectedFaults ?g then None else err (heap fs (cur ?g))) = None"
    using ne nf by (simp_all split: if_splits)
  from advance_shift [OF a assms(2)]
  show ?case
  proof
    assume s: "advance fs ?g = Inr (f1\<lparr>links := links f1 + d\<rparr>)"
    then have r: "run fs ?g = run fs (f1\<lparr>links := links f1 + d\<rparr>)"
      using gne gnf by (subst run_advance) simp
    from Suc.IH [OF i] show ?thesis
    proof
      assume "iter fs n (f1\<lparr>links := links f1 + d\<rparr>) = Some (f'\<lparr>links := links f' + d\<rparr>)"
      then show ?thesis using gne gnf s by simp
    next
      assume "snd (run fs (f1\<lparr>links := links f1 + d\<rparr>)) = Err errTooManyLinks"
      then show ?thesis using r by simp
    qed
  next
    assume "\<exists>f3. advance fs ?g = Inl (f3, Err errTooManyLinks)"
    then obtain f3 where "advance fs ?g = Inl (f3, Err errTooManyLinks)" by blast
    then have "run fs ?g = (f3, Err errTooManyLinks)"
      using gne gnf by (subst run_advance) simp
    then show ?thesis by simp
  qed
qed

lemma advance_links_mono:
  assumes "advance fs f = Inr f1"
  shows "links f \<le> links f1 \<and> (links f < links f1 \<longrightarrow> links f1 \<le> 255)"
proof -
  let ?f1 = "updateNameRemFromSlashPos f (IndexByte (nameRem f) CHR ''/'')"
  from assms have "f1 = ?f1 \<or> (\<exists>c. updateFromChildN fs ?f1 c = (f1, Ok ()))"
    by (auto simp: advance_def Let_def split: result.splits option.splits prod.splits if_splits)
  then show ?thesis
  proof
    assume "f1 = ?f1"
    then show ?thesis by simp
  next
    assume "\<exists>c. updateFromChildN fs ?f1 c = (f1, Ok ())"
    then obtain c where "updateFromChildN fs ?f1 c = (f1, Ok ())" by blast
    from updateFromChildN_Ok [OF this] show ?thesis by auto
  qed
qed

lemma iter_links_mono:
  "iter fs n f = Some f' \<Longrightarrow> links f \<le> links f' \<and> (links f < links f' \<longrightarrow> links f' \<le> 255)"
proof (induction n arbitrary: f)
  case 0
  then show ?case by simp
next
  case (Suc n)
  from Suc.prems obtain f1 where a: "advance fs f = Inr f1" and i: "iter fs n f1 = Some f'"
    by (auto split: if_splits option.splits sum.splits)
  from advance_links_mono [OF a] Suc.IH [OF i] show ?case by auto
qed

lemma cycle_state_fails:
  assumes "iter fs n f = Some (f\<lparr>links := links f + k\<rparr>)" "0 < k"
  shows "snd (run fs f) = Err errTooManyLinks"
  using assms(1)
proof (induction "nat (256 - links f)" arbitrary: f rule: less_induct)
  case less
  let ?g = "f\<lparr>links := links f + k\<rparr>"
  have rg: "run fs f = run fs ?g" using less.prems by (rule run_iter)
  from iter_links_mono [OF less.prems] assms(2) have g255: "links ?g \<le> 255" by simp
  have k0: "0 \<le> k" using assms(2) by simp
  from iter_shift [OF less.prems k0]
  show ?case
  proof
    assume "iter fs n ?g = Some (?g\<lparr>links := links ?g + k\<rparr>)"
    moreover have "nat (256 - links ?g) < nat (256 - links f)"
      using g255 assms(2) by simp
    ultimately have "snd (run fs ?g) = Err errTooManyLinks"
      by (rule less.hyps [rotated])
    with rg show ?thesis by simp
  next
    assume "snd (run fs ?g) = Err errTooManyLinks"
    with rg show ?thesis by simp
  qed
qed

lemma linkCycleD:
  assumes "linkCycle fs S" "z \<in> S"
  shows "\<exists>a target. validName z \<and> mode (heap fs (root fs)) AND ModeDir \<noteq> 0 \<and>
     err (heap fs (root fs)) = None \<and> dirLookup fs (root fs) z = Ok (Some a) \<and>
     mode (heap fs a) AND ModeSymlink \<noteq> 0 \<and> extra (heap fs a) = Bytes target \<and>
     target \<noteq> [] \<and> hd target = CHR ''/'' \<and> tl target \<in> S"
proof -
  from assms have r: "validName z" "mode (heap fs (root fs)) AND ModeDir \<noteq> 0" "err (heap fs (root fs)) = None"
    and c: "case dirLookup fs (root fs) z of
            Ok (Some a) \<Rightarrow>
              mode (heap fs a) AND ModeSymlink \<noteq> 0 \<and>
              (case extra (heap fs a) of
                 Bytes target \<Rightarrow> target \<noteq> [] \<and> hd target = CHR ''/'' \<and> tl target \<in> S
               | Nodes _ \<Rightarrow> False)
          | _ \<Rightarrow> False"
    by (auto simp: linkCycle_def)
  from c obtain a where a: "dirLookup fs (root fs) z = Ok (Some a)"
    by (cases "dirLookup fs (root fs) z") (auto split: option.splits)
  with c have s: "mode (heap fs a) AND ModeSymlink \<noteq> 0"
    and c2: "case extra (heap fs a) of
                 Bytes target \<Rightarrow> target \<noteq> [] \<and> hd target = CHR ''/'' \<and> tl target \<in> S
               | Nodes _ \<Rightarrow> False"
    by auto
  from c2 obtain target where "extra (heap fs a) = Bytes target" "target \<noteq> []" "hd target = CHR ''/''" "tl target \<in> S"
    by (cases "extra (heap fs a)") auto
  with r a s show ?thesis by blast
qed

lemma linkCycle_run:
  assumes "linkCycle fs S"
  shows "z \<in> S \<Longrightarrow> rest = [] \<or> hd rest = CHR ''/'' \<Longrightarrow> l \<le> 255 \<Longrightarrow> k = nat (255 - l) \<Longrightarrow>
     snd (run fs \<lparr>ignoreInjectedFaults = ig, links = l, nameRem = z @ rest, cur = root fs, resolveSymlinks = True\<rparr>)
         = Err errTooManyLinks
     \<and> links (fst (run fs \<lparr>ignoreInjectedFaults = ig, links = l, nameRem = z @ rest, cur = root fs, resolveSymlinks = True\<rparr>))
         = 256"
proof (induction k arbitrary: z rest l)
  case 0
  then have l: "l = 255" by simp
  from linkCycleD [OF assms "0.prems"(1)] obtain a target where
    v: "validName z" and rt: "mode (heap fs (root fs)) AND ModeDir \<noteq> 0" "err (heap fs (root fs)) = None"
    and a: "dirLookup fs (root fs) z = Ok (Some a)" "mode (heap fs a) AND ModeSymlink \<noteq> 0"
    and t: "extra (heap fs a) = Bytes target" "target \<noteq> []" "hd target = CHR ''/''" "tl target \<in> S"
    by blast
  have ix: "IndexByte (z @ rest) CHR ''/'' = (if rest = [] then - 1 else int (length z))"
    using v "0.prems"(2) by (cases rest) (auto simp: validName_def IndexByte_notin IndexByte_append)
  show ?case
    using v rt a t ix l
    by (subst (1 2) run_nonempty)
       (auto simp: validName_def getNameComp_def getChildN_def validateNameComp_def
          updateNameRemFromSlashPos_def updateFromChildN_def Let_def)
next
  case (Suc k)
  then have l: "l < 255" by simp
  from linkCycleD [OF assms Suc.prems(1)] obtain a target where
    v: "validName z" and rt: "mode (heap fs (root fs)) AND ModeDir \<noteq> 0" "err (heap fs (root fs)) = None"
    and a: "dirLookup fs (root fs) z = Ok (Some a)" "mode (heap fs a) AND ModeSymlink \<noteq> 0"
    and t: "extra (heap fs a) = Bytes target" "target \<noteq> []" "hd target = CHR ''/''" "tl target \<in> S"
    by blast
  have ix: "IndexByte (z @ rest) CHR ''/'' = (if rest = [] then - 1 else int (length z))"
    using v Suc.prems(2) by (cases rest) (auto simp: validName_def IndexByte_notin IndexByte_append)
  have step: "run fs \<lparr>ignoreInjectedFaults = ig, links = l, nameRem = z @ rest, cur = root fs, resolveSymlinks = True\<rparr>
      = run fs \<lparr>ignoreInjectedFaults = ig, links = l + 1, nameRem = tl target @ (CHR ''/'' # drop 1 rest), cur = root fs, resolveSymlinks = True\<rparr>"
    using v rt a t ix l
    by (subst run_nonempty)
       (auto simp: validName_def getNameComp_def getChildN_def validateNameComp_def
          updateNameRemFromSlashPos_def updateFromChildN_def Let_def drop_Suc)
  have "k = nat (255 - (l + 1))" using Suc.prems by simp
  from Suc.IH [OF t(4) _ _ this, of "CHR ''/'' # drop 1 rest"] l
  show ?case unfolding step by simp
qed

lemma cycleFS_linkCycle: "linkCycle cycleFS {''x'', ''y''}"
  by (simp add: linkCycle_def cycleFS_simps validName_def dirLookup_def mode_defs)

lemma cycleFS_iter:
  "iter cycleFS (Suc 0) \<lparr>ignoreInjectedFaults = False, links = 0, nameRem = drop 1 (abs_path cycleFS ''/x''),
                   cur = root cycleFS, resolveSymlinks = True\<rparr>
     = Some \<lparr>ignoreInjectedFaults = False, links = 1, nameRem = ''y/'', cur = 0, resolveSymlinks = True\<rparr>"
  "iter cycleFS (Suc (Suc 0)) \<lparr>ignoreInjectedFaults = False, links = 1, nameRem = ''y/'', cur = 0, resolveSymlinks = True\<rparr>
     = Some (\<lparr>ignoreInjectedFaults = False, links = 1, nameRem = ''y/'', cur = 0, resolveSymlinks = True\<rparr>
              \<lparr>links := links \<lparr>ignoreInjectedFaults = False, links = 1, nameRem = ''y/'', cur = 0, resolveSymlinks = True\<rparr> + 2\<rparr>)"
  by (simp_all add: cycleFS_simps advance_def eval_defs)

subsection \<open>Components . and ..\<close>

lemma updateFromChildN_noresolve:
  "\<not> resolveSymlinks f \<Longrightarrow>
   updateFromChildN fs f c =
     (f\<lparr>cur := (if mode (heap fs c) AND ModeSymlink \<noteq> 0 then cur f else c)\<rparr>, Ok ())"
  by (simp add: updateFromChildN_def)

lemma run_dotted:
  assumes "\<forall>c\<in>set cs. CHR ''/'' \<notin> set c" "\<exists>c\<in>set cs. dotted c"
  shows "\<exists>f' r. run fs \<lparr>ignoreInjectedFaults = True, links = l, nameRem = joinSlash cs, cur = p, resolveSymlinks = False\<rparr> = (f', r)
     \<and> ((\<exists>e. r = Panic e) \<or> r = Err ENOTDIR \<or>
         (r = Err ErrNotExist \<and>
          (\<exists>cs'. nameRem f' = joinSlash cs' \<and> (\<forall>c\<in>set cs'. CHR ''/'' \<notin> set c) \<and> (\<exists>c\<in>set cs'. dotted c))))"
  using assms
proof (induction cs arbitrary: p)
  case Nil
  then show ?case by simp
next
  case (Cons c cs)
  let ?f = "\<lparr>ignoreInjectedFaults = True, links = l, nameRem = joinSlash (c # cs), cur = p, resolveSymlinks = False\<rparr>"
  have ne: "nameRem ?f \<noteq> []"
    using joinSlash_dotted_nonempty [OF Cons.prems(2)] by simp
  have sf: "CHR ''/'' \<notin> set c" "\<forall>c\<in>set cs. CHR ''/'' \<notin> set c" using Cons.prems(1) by simp_all
  show ?case
  proof (cases "dotted c")
    case True
    then have c0: "c \<noteq> []" by (auto simp: dotted_def)
    have ix: "getNameComp ?f (IndexByte (nameRem ?f) CHR ''/'') = c"
      using sf(1) by (cases cs) (auto simp: getNameComp_def IndexByte_notin IndexByte_append)
    have "run fs ?f = (?f, Panic errNameComp)"
      using True c0 ix
      by (subst run_nonempty [OF ne])
         (auto simp: Let_def getChildN_def validateNameComp_def dotted_def)
    then show ?thesis by simp
  next
    case nd: False
    with Cons.prems(2) have dcs: "\<exists>c\<in>set cs. dotted c" by auto
    then have csne: "cs \<noteq> []" by auto
    note nr = joinSlash_Cons [OF csne]
    have ix: "IndexByte (nameRem ?f) CHR ''/'' = int (length c)"
      using sf(1) by (simp add: nr IndexByte_append)
    note IH = Cons.IH [OF sf(2) dcs]
    show ?thesis
    proof (cases "getChildN fs ?f c")
      case (Panic e)
      then have "run fs ?f = (?f, Panic e)"
        using ix by (subst run_nonempty [OF ne]) (simp add: Let_def getNameComp_def nr)
      then show ?thesis by simp
    next
      case (Err e)
      then have r: "run fs ?f = (?f, Err e)"
        using ix by (subst run_nonempty [OF ne]) (simp add: Let_def getNameComp_def nr)
      from Err have "e = ENOTDIR \<or> e = ErrNotExist"
        by (auto simp: getChildN_def dirLookup_def split: if_splits option.splits payload.splits)
      then show ?thesis
      proof
        assume "e = ENOTDIR"
        with r show ?thesis by simp
      next
        assume "e = ErrNotExist"
        moreover have "\<exists>cs'. joinSlash (c # cs) = joinSlash cs' \<and>
              (\<forall>c\<in>set cs'. CHR ''/'' \<notin> set c) \<and> (\<exists>x\<in>set cs'. dotted x)"
          using Cons.prems by (intro exI [of _ "c # cs"]) simp
        ultimately show ?thesis using r by simp
      qed
    next
      case (Ok childN)
      show ?thesis
      proof (cases "c = []")
        case True
        have "run fs ?f = run fs \<lparr>ignoreInjectedFaults = True, links = l, nameRem = joinSlash cs, cur = p, resolveSymlinks = False\<rparr>"
          using ix Ok True
          by (subst run_nonempty [OF ne])
             (simp add: Let_def getNameComp_def nr updateNameRemFromSlashPos_def)
        with IH [of p] show ?thesis by simp
      next
        case False
        with Ok obtain k where k: "childN = Some k"
          by (auto simp: getChildN_def split: if_splits option.splits result.splits)
        define q where "q = (if mode (heap fs k) AND ModeSymlink \<noteq> 0 then p else k)"
        have q: "updateFromChildN fs \<lparr>ignoreInjectedFaults = True, links = l, nameRem = joinSlash cs, cur = p, resolveSymlinks = False\<rparr> k
            = (\<lparr>ignoreInjectedFaults = True, links = l, nameRem = joinSlash cs, cur = q, resolveSymlinks = False\<rparr>, Ok ())"
          by (simp add: updateFromChildN_noresolve q_def)
        have "run fs ?f = run fs \<lparr>ignoreInjectedFaults = True, links = l, nameRem = joinSlash cs, cur = q, resolveSymlinks = False\<rparr>"
          using ix Ok False k q
          by (subst run_nonempty [OF ne])
             (simp add: Let_def getNameComp_def nr updateNameRemFromSlashPos_def)
        with IH [of q] show ?thesis by simp
      qed
    qed
  qed
qed

lemma createChildren_dotted:
  assumes "\<forall>c\<in>set cs. CHR ''/'' \<notin> set c" "\<exists>c\<in>set cs. dotted c"
  shows "\<exists>e fs'. createChildren fs p (joinSlash cs) vfile = (Panic e, fs')"
  using assms
proof (induction cs arbitrary: fs p)
  case Nil
  then show ?case by simp
next
  case (Cons c cs)
  have sf: "CHR ''/'' \<notin> set c" "\<forall>c\<in>set cs. CHR ''/'' \<notin> set c" using Cons.prems(1) by simp_all
  show ?case
  proof (cases "dotted c")
    case True
    then have c0: "c \<noteq> []" by (auto simp: dotted_def)
    have "createChildren fs p (joinSlash (c # cs)) vfile = (Panic errNameComp, fs)"
      using True c0 sf(1)
      by (subst createChildren.simps, cases cs)
         (auto simp: Let_def validateNameComp_def dotted_def IndexByte_notin IndexByte_append)
    then show ?thesis by blast
  next
    case nd: False
    with Cons.prems(2) have dcs: "\<exists>c\<in>set cs. dotted c" by auto
    then have csne: "cs \<noteq> []" by auto
    note nr = joinSlash_Cons [OF csne]
    have ix: "IndexByte (joinSlash (c # cs)) CHR ''/'' = int (length c)"
      using sf(1) by (simp add: nr IndexByte_append)
    note IH = Cons.IH [OF sf(2) dcs]
    show ?thesis
    proof (cases "c = []")
      case True
      have "createChildren fs p (joinSlash (c # cs)) vfile = createChildren fs p (joinSlash cs) vfile"
        using True by (subst createChildren.simps) (simp add: Let_def nr)
      with IH [of fs p] show ?thesis by simp
    next
      case False
      have v: "validateNameComp c = None"
        using nd by (simp add: validateNameComp_def dotted_def)
      obtain childN fs1 where n: "newDirNode fs ModeDir c = (childN, fs1)"
        by (cases "newDirNode fs ModeDir c")
      obtain r fs2 where d: "dirAppend fs1 p childN = (r, fs2)"
        by (cases "dirAppend fs1 p childN")
      have rr: "r = Ok () \<or> r = Panic runtimeTypeAssertion"
        using d by (auto simp: dirAppend_def split: payload.splits)
      then show ?thesis
      proof
        assume "r = Ok ()"
        then have "createChildren fs p (joinSlash (c # cs)) vfile = createChildren fs2 childN (joinSlash cs) vfile"
          using False v n d ix
          by (subst createChildren.simps) (simp add: Let_def nr)
        with IH [of fs2 childN] show ?thesis by simp
      next
        assume "r = Panic runtimeTypeAssertion"
        then have "createChildren fs p (joinSlash (c # cs)) vfile = (Panic runtimeTypeAssertion, fs2)"
          using False v n d ix
          by (subst createChildren.simps) (simp add: Let_def nr)
        then show ?thesis by blast
      qed
    qed
  qed
qed

lemma Set_fs_dotted:
  assumes "\<exists>c\<in>set (components fs nm). dotted c"
  shows "\<exists>e fs'. Set_fs fs nm vfile = (Panic e, fs')"
proof (cases "validMode (Mode vfile)")
  case False
  then show ?thesis by (auto simp: Set_fs_def validMode_def Let_def)
next
  case vm: True
  show ?thesis
  proof (cases "abs_path fs nm")
    case Nil
    then show ?thesis
      using vm by (auto simp: Set_fs_def validMode_def Let_def find_fs_def)
  next
    case (Cons x rest)
    let ?cs = "splitSlash rest"
    have cs: "components fs nm = ?cs" by (simp add: components_def Cons)
    have sf: "\<forall>c\<in>set ?cs. CHR ''/'' \<notin> set c" by (auto dest: splitSlash_slashfree)
    from run_dotted [OF sf assms [unfolded cs], of fs 0 "root fs"]
    obtain f' r where run: "run fs \<lparr>ignoreInjectedFaults = True, links = 0, nameRem = rest, cur = root fs, resolveSymlinks = False\<rparr> = (f', r)"
      and r: "(\<exists>e. r = Panic e) \<or> r = Err ENOTDIR \<or>
         (r = Err ErrNotExist \<and>
          (\<exists>cs'. nameRem f' = joinSlash cs' \<and> (\<forall>c\<in>set cs'. CHR ''/'' \<notin> set c) \<and> (\<exists>c\<in>set cs'. dotted c)))"
      by auto
    have find: "find_fs fs nm True False = (cur f', nameRem f', r)"
      by (simp add: find_fs_def Cons run)
    from r consider (panic) e where "r = Panic e" | (notdir) "r = Err ENOTDIR"
      | (missing) cs' where "r = Err ErrNotExist" "nameRem f' = joinSlash cs'"
          "\<forall>c\<in>set cs'. CHR ''/'' \<notin> set c" "\<exists>c\<in>set cs'. dotted c"
      by blast
    then show ?thesis
    proof cases
      case panic
      then show ?thesis using vm find by (simp add: Set_fs_def validMode_def Let_def)
    next
      case notdir
      then show ?thesis using vm find by (simp add: Set_fs_def validMode_def Let_def)
    next
      case missing
      from createChildren_dotted [OF missing(3,4), of fs "cur f'" vfile]
      obtain e fs' where "createChildren fs (cur f') (joinSlash cs') vfile = (Panic e, fs')" by blast
      then show ?thesis
        using vm find missing(1,2) joinSlash_dotted_nonempty [OF missing(4)]
        by (simp add: Set_fs_def validMode_def Let_def)
    qed
  qed
qed

lemma run_reaches_dotted:
  assumes "dotted c" "nameRem f = c \<or> (\<exists>rest. nameRem f = c @ CHR ''/'' # rest)"
    and "ignoreInjectedFaults f \<or> err (heap fs (cur f)) = None"
  shows "run fs f = (f, Panic errNameComp)"
proof -
  have sf: "CHR ''/'' \<notin> set c" "c \<noteq> []" using assms(1) by (auto simp: dotted_def)
  have "getNameComp f (IndexByte (nameRem f) CHR ''/'') = c"
    using assms(2) sf by (auto simp: getNameComp_def IndexByte_notin IndexByte_append)
  moreover have "nameRem f \<noteq> []" using assms(2) sf by auto
  ultimately show ?thesis
    using assms(1,3) sf
    by (subst run_nonempty)
       (auto simp: Let_def getChildN_def validateNameComp_def dotted_def)
qed

section \<open>The claims\<close>

subsection \<open>C1: Set on a path that exists\<close>

text \<open>
  C1, as amended. When the path names an existing node through directories, with no
  symlink matched on the way or at the end, the node's directory status agrees with the
  descriptor's and the descriptor's mode is valid, \<open>Set\<close> succeeds and changes this one
  node only: its mode and injected error become the descriptor's; its payload becomes the
  descriptor's content when the descriptor is no directory, and a directory keeps its
  children. Nothing is appended and no other node changes.
\<close>

theorem Set_updates_existing_node:
  assumes "abs_path fs nm \<noteq> []"
    and "walkNames fs (root fs) (components fs nm) = Some ns"
    and "p = last (root fs # ns)"
    and "(mode (heap fs p) AND ModeDir \<noteq> 0) = (Mode vfile AND ModeDir \<noteq> 0)"
    and "validMode (Mode vfile)"
  shows "Set_fs fs nm vfile =
     (Ok (), fs\<lparr>heap := (heap fs)(p := (heap fs p)
        \<lparr>err := Error vfile,
         extra := (if Mode vfile AND ModeDir = 0 then Bytes (Content vfile) else extra (heap fs p)),
         mode := Mode vfile\<rparr>)\<rparr>)"
proof -
  have "find_fs fs nm True False = (p, [], Ok ())"
    using find_fs_walkNames [OF assms(1,2), of True False] assms(3) by simp
  then show ?thesis
    using assms(4,5) by (auto simp: Set_fs_def validMode_def Let_def)
qed

theorem Set_updates_existing_node_witness:
  "Set_fs helloFS ''/dir/file.txt'' \<lparr>Content = ''bye'', Mode = 384, Error = Some (Injected 1)\<rparr> =
     (Ok (), helloFS\<lparr>heap := (heap helloFS)(Suc (Suc 0) :=
        \<lparr>err = Some (Injected 1), extra = Bytes ''bye'', mode = 384, name = ''file.txt''\<rparr>)\<rparr>)"
  using Set_updates_existing_node [OF helloFS_chain(1,2), of "Suc (Suc 0)" "\<lparr>Content = ''bye'', Mode = 384, Error = Some (Injected 1)\<rparr>"]
  by (simp add: helloFS_simps validMode_def mode_defs)

text \<open>
  C1 as stated fails on an existing directory: \<open>/dir\<close> holds \<open>file.txt\<close>, and \<open>Set\<close> with a
  directory descriptor succeeds and leaves the children as they were; the payload is
  neither the descriptor's content nor the empty directory a new node would get.
\<close>

theorem Set_keeps_directory_children:
  "fst (Set_fs helloFS ''/dir'' \<lparr>Content = ''xyz'', Mode = ModeDir, Error = None\<rparr>) = Ok ()
   \<and> extra (heap helloFS (Suc 0)) = Nodes [Suc (Suc 0)]
   \<and> extra (heap (snd (Set_fs helloFS ''/dir'' \<lparr>Content = ''xyz'', Mode = ModeDir, Error = None\<rparr>)) (Suc 0))
        = Nodes [Suc (Suc 0)]"
  by (simp add: helloFS_simps eval_defs)

subsection \<open>C2: a symlink that is matched but not followed\<close>

text \<open>
  C2 fails in the code. In the file system \<open>{"/x": symlink to "/t"}\<close> the component \<open>x\<close>
  matches node 1, a symlink; without symlink resolution \<open>updateFromChildN\<close> leaves the helper
  as it was, so the walk of \<open>/x\<close> ends at the root, not at the matched child, and a
  second \<open>Set\<close> of \<open>/x\<close> to a symlink panics with the directory disagreement.
\<close>

theorem symlink_child_not_entered:
  "dirLookup linkFS (root linkFS) ''x'' = Ok (Some (Suc 0))
   \<and> mode (heap linkFS (Suc 0)) AND ModeSymlink \<noteq> 0
   \<and> updateFromChildN linkFS
        \<lparr>ignoreInjectedFaults = True, links = 0, nameRem = [], cur = root linkFS, resolveSymlinks = False\<rparr> (Suc 0)
       = (\<lparr>ignoreInjectedFaults = True, links = 0, nameRem = [], cur = root linkFS, resolveSymlinks = False\<rparr>, Ok ())
   \<and> find_fs linkFS ''/x'' True False = (root linkFS, [], Ok ())
   \<and> Set_fs linkFS ''/x'' (symlinkTo ''/u'') = (Panic errIsDirDisagreement, linkFS)"
  by (simp add: linkFS_simps eval_defs symlinkTo_def)

subsection \<open>C3: injected errors\<close>

text \<open>
  C3, as amended. \<open>Stat\<close> and \<open>Open\<close> both fail with exactly \<open>E\<close> when \<open>E\<close> is the first
  injected error among the nodes the symlink-following walk of the path stands on: the
  root, then every node the walk enters, up to the terminal node. So \<open>E\<close> is returned from
  the terminal node or from an intermediate one, provided no node before it on the walk
  carries an injected error. The second part says the same for a path without symlinks
  in terms of the chain of nodes its components name: there \<open>E\<close> is the first injected
  error among the root and the nodes of the chain.
\<close>

theorem first_injected_error_wins:
  "(abs_path fs nm \<noteq> [] \<and>
    firstFault fs (visited fs \<lparr>ignoreInjectedFaults = False, links = 0,
       nameRem = drop 1 (abs_path fs nm), cur = root fs, resolveSymlinks = True\<rparr>) = Some E
    \<longrightarrow> Stat fs nm = Err E \<and> Open fs nm = Err E)
   \<and> (abs_path fs nm \<noteq> [] \<and> walkNames fs (root fs) (components fs nm) = Some ns \<and>
       firstFault fs (root fs # ns) = Some E
       \<longrightarrow> Stat fs nm = Err E \<and> Open fs nm = Err E)"
proof (rule conjI; rule impI)
  assume a: "abs_path fs nm \<noteq> [] \<and>
    firstFault fs (visited fs \<lparr>ignoreInjectedFaults = False, links = 0,
       nameRem = drop 1 (abs_path fs nm), cur = root fs, resolveSymlinks = True\<rparr>) = Some E"
  then obtain x r where x: "abs_path fs nm = x # r"
    by (cases "abs_path fs nm") auto
  have "snd (run fs \<lparr>ignoreInjectedFaults = False, links = 0, nameRem = r, cur = root fs, resolveSymlinks = True\<rparr>) = Err E"
    using a by (intro run_firstFault) (simp_all add: x)
  then show "Stat fs nm = Err E \<and> Open fs nm = Err E"
    by (auto simp: Stat_def Open_def find_fs_def x split: prod.splits)
next
  assume a: "abs_path fs nm \<noteq> [] \<and> walkNames fs (root fs) (components fs nm) = Some ns \<and>
       firstFault fs (root fs # ns) = Some E"
  then obtain x r where x: "abs_path fs nm = x # r"
    by (cases "abs_path fs nm") auto
  have c: "components fs nm = splitSlash r" by (simp add: components_def x)
  have "snd (run fs \<lparr>ignoreInjectedFaults = False, links = 0, nameRem = joinSlash (splitSlash r), cur = root fs, resolveSymlinks = True\<rparr>) = Err E"
    using a unfolding c
    by (intro run_walkNames_fault [where ns = ns]) (auto dest: splitSlash_slashfree)
  then show "Stat fs nm = Err E \<and> Open fs nm = Err E"
    by (auto simp: Stat_def Open_def find_fs_def x split: prod.splits)
qed

theorem first_injected_error_wins_witness:
  "err (heap faultFS (Suc (Suc (Suc 0)))) = Some (Injected 9)
   \<and> walkNames faultFS (root faultFS) (components faultFS ''/t'') = Some [Suc (Suc (Suc 0))]
   \<and> Stat faultFS ''/t'' = Err (Injected 9) \<and> Open faultFS ''/t'' = Err (Injected 9)
   \<and> err (heap faultFS (Suc 0)) = Some (Injected 7)
   \<and> walkNames faultFS (root faultFS) (components faultFS ''/a/b'') = Some [Suc 0, Suc (Suc 0)]
   \<and> Stat faultFS ''/a/b'' = Err (Injected 7) \<and> Open faultFS ''/a/b'' = Err (Injected 7)"
proof -
  have t: "abs_path faultFS ''/t'' \<noteq> []" and ab: "abs_path faultFS ''/a/b'' \<noteq> []"
    by (simp_all add: abs_path_def)
  have ft: "firstFault faultFS (visited faultFS \<lparr>ignoreInjectedFaults = False, links = 0,
           nameRem = drop 1 (abs_path faultFS ''/t''), cur = root faultFS, resolveSymlinks = True\<rparr>)
      = Some (Injected 9)"
    unfolding faultFS_visited by (simp add: faultFS_simps)
  have fab: "firstFault faultFS (visited faultFS \<lparr>ignoreInjectedFaults = False, links = 0,
           nameRem = drop 1 (abs_path faultFS ''/a/b''), cur = root faultFS, resolveSymlinks = True\<rparr>)
      = Some (Injected 7)"
    unfolding faultFS_visited by (simp add: faultFS_simps)
  have wt: "walkNames faultFS (root faultFS) (components faultFS ''/t'') = Some [Suc (Suc (Suc 0))]"
    and wab: "walkNames faultFS (root faultFS) (components faultFS ''/a/b'') = Some [Suc 0, Suc (Suc 0)]"
    by (simp_all add: faultFS_simps components_def abs_path_def mode_defs)
  have gt: "firstFault faultFS (root faultFS # [Suc (Suc (Suc 0))]) = Some (Injected 9)"
    and gab: "firstFault faultFS (root faultFS # [Suc 0, Suc (Suc 0)]) = Some (Injected 7)"
    by (simp_all add: faultFS_simps)
  show ?thesis
    using first_injected_error_wins [of faultFS "''/t''" "Injected 9" "[Suc (Suc (Suc 0))]"]
      first_injected_error_wins [of faultFS "''/a/b''" "Injected 7" "[Suc 0, Suc (Suc 0)]"]
      t ab ft fab wt wab gt gab
    by (simp add: faultFS_simps)
qed

text \<open>
  C3 as stated fails when a directory above the node carries another injected error:
  \<open>/a/b\<close> was set with the error 8 and the walk ends at it when faults are ignored, yet
  \<open>Stat\<close> and \<open>Open\<close> return the error 7 of \<open>/a\<close>.
\<close>

theorem error_of_ancestor_returned:
  "fst (NewVirtualFileSystem
     [(''/a'', \<lparr>Content = [], Mode = ModeDir, Error = Some (Injected 7)\<rparr>),
      (''/a/b'', \<lparr>Content = ''data'', Mode = 420, Error = Some (Injected 8)\<rparr>),
      (''/t'', \<lparr>Content = ''text'', Mode = 420, Error = Some (Injected 9)\<rparr>)]) = Ok ()
   \<and> find_fs faultFS ''/a/b'' True True = (Suc (Suc 0), [], Ok ())
   \<and> err (heap faultFS (Suc (Suc 0))) = Some (Injected 8)
   \<and> Stat faultFS ''/a/b'' = Err (Injected 7)
   \<and> Open faultFS ''/a/b'' = Err (Injected 7)"
  by (simp add: faultFS_simps eval_defs)

subsection \<open>C4: symlink cycles\<close>

text \<open>
  C4. \<open>run\<close> is a total function: the walk ends for every file system and every name.
  Started with at most 255 links counted it never counts past 256, and whenever the count
  has passed 255 it has failed with the too-many-links error. A symlink cycle is a walk
  that, after some iterations, comes back to the same node with the same remaining name
  and a higher link count: \<open>Stat\<close> and \<open>Open\<close> of a path whose walk reaches such a state
  fail with the too-many-links error; so do they for every name of a cycle of absolute
  symlinks in the root, where the count ends at 256. An empty name component changes
  neither the count nor the result.
\<close>

theorem symlink_cycle_too_many_links:
  "(links f \<le> 255 \<longrightarrow>
      links (fst (run fs f)) \<le> 256 \<and>
      (255 < links (fst (run fs f)) \<longrightarrow> snd (run fs f) = Err errTooManyLinks))
   \<and> (abs_path fs nm \<noteq> [] \<and>
        iter fs m \<lparr>ignoreInjectedFaults = False, links = 0, nameRem = drop 1 (abs_path fs nm),
                   cur = root fs, resolveSymlinks = True\<rparr> = Some g \<and>
        iter fs n g = Some (g\<lparr>links := links g + k\<rparr>) \<and> 0 < k \<longrightarrow>
        Stat fs nm = Err errTooManyLinks \<and> Open fs nm = Err errTooManyLinks)
   \<and> (linkCycle fs S \<and> z \<in> S \<longrightarrow>
        Stat fs (CHR ''/'' # z) = Err errTooManyLinks \<and> Open fs (CHR ''/'' # z) = Err errTooManyLinks
        \<and> links (fst (run fs \<lparr>ignoreInjectedFaults = False, links = 0, nameRem = z,
                               cur = root fs, resolveSymlinks = True\<rparr>)) = 256)
   \<and> links (fst (run fs (f\<lparr>nameRem := CHR ''/'' # r\<rparr>))) = links (fst (run fs (f\<lparr>nameRem := r\<rparr>)))
   \<and> snd (run fs (f\<lparr>nameRem := CHR ''/'' # r\<rparr>)) = snd (run fs (f\<lparr>nameRem := r\<rparr>))"
proof -
  have cyc: "Stat fs (CHR ''/'' # z) = Err errTooManyLinks \<and> Open fs (CHR ''/'' # z) = Err errTooManyLinks
        \<and> links (fst (run fs \<lparr>ignoreInjectedFaults = False, links = 0, nameRem = z,
                               cur = root fs, resolveSymlinks = True\<rparr>)) = 256"
    if "linkCycle fs S" "z \<in> S"
  proof -
    from linkCycle_run [OF that, of "[]" 0 255 False]
    show ?thesis
      by (auto simp: Stat_def Open_def find_fs_def abs_path_def split: prod.splits)
  qed
  have gen: "Stat fs nm = Err errTooManyLinks \<and> Open fs nm = Err errTooManyLinks"
    if a: "abs_path fs nm \<noteq> []"
      and i: "iter fs m \<lparr>ignoreInjectedFaults = False, links = 0, nameRem = drop 1 (abs_path fs nm),
                   cur = root fs, resolveSymlinks = True\<rparr> = Some g"
      and c: "iter fs n g = Some (g\<lparr>links := links g + k\<rparr>)" "0 < k"
  proof -
    obtain x rest where x: "abs_path fs nm = x # rest"
      using a by (cases "abs_path fs nm") auto
    have "snd (run fs \<lparr>ignoreInjectedFaults = False, links = 0, nameRem = rest,
                   cur = root fs, resolveSymlinks = True\<rparr>) = Err errTooManyLinks"
      using run_iter [OF i] cycle_state_fails [OF c] by (simp add: x)
    then show ?thesis
      by (auto simp: Stat_def Open_def find_fs_def x split: prod.splits)
  qed
  show ?thesis
    using run_links_bound [where f = f and fs = fs] run_empty_component [where f = f and fs = fs and r = r]
      cyc gen by blast
qed

theorem symlink_cycle_too_many_links_witness:
  "fst (NewVirtualFileSystem [(''/x'', symlinkTo ''/y''), (''/y'', symlinkTo ''/x'')]) = Ok ()
   \<and> linkCycle cycleFS {''x'', ''y''}
   \<and> iter cycleFS (Suc (Suc 0)) \<lparr>ignoreInjectedFaults = False, links = 1, nameRem = ''y/'', cur = 0, resolveSymlinks = True\<rparr>
        = Some \<lparr>ignoreInjectedFaults = False, links = 3, nameRem = ''y/'', cur = 0, resolveSymlinks = True\<rparr>
   \<and> Stat cycleFS ''/x'' = Err errTooManyLinks \<and> Open cycleFS ''/x'' = Err errTooManyLinks
   \<and> links (fst (run cycleFS \<lparr>ignoreInjectedFaults = False, links = 0, nameRem = ''x'',
                               cur = root cycleFS, resolveSymlinks = True\<rparr>)) = 256
   \<and> snd (run cycleFS \<lparr>ignoreInjectedFaults = False, links = 0, nameRem = ''x'',
                               cur = root cycleFS, resolveSymlinks = True\<rparr>) = Err errTooManyLinks"
proof -
  have a: "abs_path cycleFS ''/x'' \<noteq> []" by (simp add: abs_path_def)
  have k: "(0::int) < 2" by simp
  note t = symlink_cycle_too_many_links [where f = "\<lparr>ignoreInjectedFaults = False, links = 0, nameRem = ''x'',
      cur = root cycleFS, resolveSymlinks = True\<rparr>" and fs = cycleFS and S = "{''x'', ''y''}"
      and z = "''x''" and r = "[]" and nm = "''/x''" and m = "Suc 0" and n = "Suc (Suc 0)" and k = 2
      and g = "\<lparr>ignoreInjectedFaults = False, links = 1, nameRem = ''y/'', cur = 0, resolveSymlinks = True\<rparr>"]
  show ?thesis
    using t a k cycleFS_iter cycleFS_linkCycle
    by (simp add: cycleFS_simps)
qed

subsection \<open>C5: Set below a node that is no directory\<close>

text \<open>
  C5. When a path names an existing node that is no directory (after \<open>/a/b\<close> was set as a
  regular file, say), \<open>Set\<close> of a path one component below it, with a descriptor of a valid
  mode, panics with the directory-disagreement error and the file system it leaves is
  the one it was given: no node is created or changed.
\<close>

theorem Set_below_file_fails:
  assumes "nm \<noteq> []"
    and "walkNames fs (root fs) (components fs nm) = Some ns"
    and "p = last (root fs # ns)"
    and "\<not> IsDir (mode (heap fs p))"
    and "validName c"
    and "validMode (Mode vfile)"
  shows "Set_fs fs (nm @ CHR ''/'' # c) vfile = (Panic errIsDirDisagreement, fs)"
proof -
  let ?nm = "nm @ CHR ''/'' # c"
  have sf: "CHR ''/'' \<notin> set c" using assms(5) by (simp add: validName_def)
  have comps: "components fs ?nm = components fs nm @ [c]"
    using assms(1) sf by (rule components_append)
  have "run fs \<lparr>ignoreInjectedFaults = True, links = 0, nameRem = joinSlash (components fs nm @ [c]),
                 cur = root fs, resolveSymlinks = False\<rparr>
      = run fs \<lparr>ignoreInjectedFaults = True, links = 0, nameRem = joinSlash [c],
                 cur = last (root fs # ns), resolveSymlinks = False\<rparr>"
    using assms(2)
    by (intro run_walkNames) (auto simp: components_def dest: splitSlash_slashfree)
  also have "\<dots> = (\<lparr>ignoreInjectedFaults = True, links = 0, nameRem = c, cur = p, resolveSymlinks = False\<rparr>, Err ENOTDIR)"
    using run_not_directory [OF assms(5), of fs p True 0 False] assms(3,4)
    by (simp add: IsDir_def)
  finally have "find_fs fs ?nm True False = (p, c, Err ENOTDIR)"
    using abs_path_nonempty [of ?nm fs] by (simp add: find_fs_run comps)
  then show ?thesis
    using assms(6) by (simp add: Set_fs_def validMode_def Let_def)
qed

theorem Set_below_file_fails_witness:
  "fst (Set_fs emptyFS ''/a/b'' (regularFile ''data'')) = Ok ()
   \<and> IsRegular (mode (heap abFS (Suc (Suc 0))))
   \<and> walkNames abFS (root abFS) (components abFS ''/a/b'') = Some [Suc 0, Suc (Suc 0)]
   \<and> Set_fs abFS ''/a/b/c'' (regularFile ''more'') = (Panic errIsDirDisagreement, abFS)"
proof -
  have w: "walkNames abFS (root abFS) (components abFS ''/a/b'') = Some [Suc 0, Suc (Suc 0)]"
    by (simp add: abFS_simps components_def abs_path_def mode_defs)
  have v: "validMode (Mode (regularFile ''more''))"
    by (simp add: validMode_def regularFile_def mode_defs)
  show ?thesis
    using w v Set_below_file_fails [of "''/a/b''" abFS "[Suc 0, Suc (Suc 0)]" "Suc (Suc 0)" "''c''" "regularFile ''more''"]
    by (simp add: abFS_simps mode_defs validName_def)
qed

subsection \<open>C6: Open, then read to the end\<close>



subsection \<open>C7: directory listings\<close>

text \<open>
  C7. On a descriptor of a directory node, \<open>Readdir\<close> with a count above zero fails (it
  panics) with the not-supported error, and with a count of zero or less it returns the
  directory's children, all of them, in the order of the node's list; a child that \<open>Set\<close>
  creates in the directory goes to the end of that list, so the order is the order of
  insertion. \<open>Read\<close> on a node that is not a regular file returns the bad-mode error.
\<close>

theorem Readdir_listing:
  "(IsDir (mode (heap fs (fd_node r))) \<and> 0 < k \<longrightarrow> Readdir fs r k = Panic errNotSupported)
   \<and> (IsDir (mode (heap fs (fd_node r))) \<and> k \<le> 0 \<and> extra (heap fs (fd_node r)) = Nodes dir
        \<longrightarrow> Readdir fs r k = Ok dir)
   \<and> (CHR ''/'' \<notin> set c \<and> c \<noteq> [] \<and> c \<noteq> ''.'' \<and> c \<noteq> ''..'' \<and>
        extra (heap fs p) = Nodes dir \<and> p \<noteq> brk fs
        \<longrightarrow> fst (createChildren fs p c vfile) = Ok ()
          \<and> extra (heap (snd (createChildren fs p c vfile)) p) = Nodes (dir @ [brk fs])
          \<and> name (heap (snd (createChildren fs p c vfile)) (brk fs)) = c)
   \<and> (\<not> IsRegular (mode (heap fs (fd_node r))) \<longrightarrow> Read fs r buf = (Ok (0, Some errBadMode, buf), r))"
  by (auto simp: Readdir_def Read_def createChildren_leaf)

theorem Readdir_listing_witness:
  "Open helloFS ''/dir'' = Ok \<lparr>fd_node = Suc 0, readPos = 0\<rparr>
   \<and> IsDir (mode (heap helloFS (Suc 0))) \<and> \<not> IsRegular (mode (heap helloFS (Suc 0)))
   \<and> Readdir helloFS \<lparr>fd_node = Suc 0, readPos = 0\<rparr> 1 = Panic errNotSupported
   \<and> Readdir helloFS \<lparr>fd_node = Suc 0, readPos = 0\<rparr> 0 = Ok [Suc (Suc 0)]
   \<and> Readdir helloFS \<lparr>fd_node = Suc 0, readPos = 0\<rparr> (- 1) = Ok [Suc (Suc 0)]
   \<and> name (heap helloFS (Suc (Suc 0))) = ''file.txt''
   \<and> extra (heap (snd (createChildren helloFS (Suc 0) ''later.txt'' (regularFile ''x''))) (Suc 0))
       = Nodes [Suc (Suc 0), Suc (Suc (Suc 0))]
   \<and> name (heap (snd (createChildren helloFS (Suc 0) ''later.txt'' (regularFile ''x''))) (Suc (Suc (Suc 0))))
       = ''later.txt''
   \<and> Read helloFS \<lparr>fd_node = Suc 0, readPos = 0\<rparr> ''buf'' = (Ok (0, Some errBadMode, ''buf''), \<lparr>fd_node = Suc 0, readPos = 0\<rparr>)"
  using Readdir_listing [of helloFS "\<lparr>fd_node = Suc 0, readPos = 0\<rparr>" 1 "[Suc (Suc 0)]" "''later.txt''" "Suc 0" "regularFile ''x''" "''buf''"]
    Readdir_listing [of helloFS "\<lparr>fd_node = Suc 0, readPos = 0\<rparr>" 0 "[Suc (Suc 0)]" "''later.txt''" "Suc 0" "regularFile ''x''" "''buf''"]
    Readdir_listing [of helloFS "\<lparr>fd_node = Suc 0, readPos = 0\<rparr>" "- 1" "[Suc (Suc 0)]" "''later.txt''" "Suc 0" "regularFile ''x''" "''buf''"]
  by (simp add: helloFS_simps mode_defs eval_defs)

subsection \<open>C8: Set twice\<close>

text \<open>
  C8 fails in the code for a path that ends in a slash. On the empty file system the
  first \<open>Set("/a/", d)\<close> with the directory descriptor \<open>d\<close> (permission bits 0755) creates
  \<open>/a\<close> as an intermediate directory with the default mode and never applies \<open>d\<close>; the
  second call finds \<open>/a\<close> and updates it with \<open>d\<close>. Both calls return, and the mode of
  \<open>/a\<close> differs after the second.
\<close>

theorem Set_twice_trailing_slash:
  "fst (Set_fs emptyFS ''/a/'' dirPerm) = Ok ()
   \<and> fst (Set_fs (snd (Set_fs emptyFS ''/a/'' dirPerm)) ''/a/'' dirPerm) = Ok ()
   \<and> Stat (snd (Set_fs emptyFS ''/a/'' dirPerm)) ''/a/'' = Ok (Suc 0)
   \<and> Stat (snd (Set_fs (snd (Set_fs emptyFS ''/a/'' dirPerm)) ''/a/'' dirPerm)) ''/a/'' = Ok (Suc 0)
   \<and> mode (heap (snd (Set_fs emptyFS ''/a/'' dirPerm)) (Suc 0)) = ModeDir
   \<and> mode (heap (snd (Set_fs (snd (Set_fs emptyFS ''/a/'' dirPerm)) ''/a/'' dirPerm)) (Suc 0)) = ModeDir OR 493
   \<and> ModeDir OR 493 \<noteq> ModeDir"
  by (simp add: emptyFS_simps eval_defs dirPerm_def)

subsection \<open>C9: the name components . and ..\<close>

text \<open>
  C9, as amended. \<open>Set\<close> of a path with a component \<open>.\<close> or \<open>..\<close> always panics, whatever
  the file system and the descriptor. In a walk, the lookup of such a component panics
  with the name-component error and returns no error value, so a walk that reaches the
  component (standing on a node without injected error, or ignoring them) panics. A walk
  that fails before it reaches the component returns that failure.
\<close>

theorem dotted_component_panics:
  "((\<exists>c\<in>set (components fs nm). dotted c) \<longrightarrow> (\<exists>e fs'. Set_fs fs nm vfile = (Panic e, fs')))
   \<and> (dotted c \<longrightarrow> getChildN fs f c = Panic errNameComp)
   \<and> (dotted c \<and> (nameRem f = c \<or> (\<exists>rest. nameRem f = c @ CHR ''/'' # rest)) \<and>
        (ignoreInjectedFaults f \<or> err (heap fs (cur f)) = None)
        \<longrightarrow> run fs f = (f, Panic errNameComp))"
  using Set_fs_dotted [of fs nm vfile] run_reaches_dotted [of c f fs]
  by (auto simp: getChildN_def validateNameComp_def dotted_def)

theorem dotted_component_panics_witness:
  "(\<exists>c\<in>set (components emptyFS ''/new/../x''). dotted c)
   \<and> Set_fs emptyFS ''/new/../x'' (regularFile ''data'')
       = (Panic errNameComp,
          emptyFS\<lparr>heap := (heap emptyFS)
             (Suc 0 := \<lparr>err = None, extra = Nodes [], mode = ModeDir, name = ''new''\<rparr>,
              0 := (heap emptyFS 0)\<lparr>extra := Nodes [Suc 0]\<rparr>),
            brk := Suc (Suc 0)\<rparr>)
   \<and> dotted ''..''
   \<and> getChildN emptyFS \<lparr>ignoreInjectedFaults = False, links = 0, nameRem = ''../x'', cur = 0, resolveSymlinks = True\<rparr> ''..''
       = Panic errNameComp
   \<and> Stat emptyFS ''/../x'' = Panic errNameComp"
  using dotted_component_panics [of emptyFS "''/new/../x''" "regularFile ''data''" "''..''"
      "\<lparr>ignoreInjectedFaults = False, links = 0, nameRem = ''../x'', cur = 0, resolveSymlinks = True\<rparr>"]
  by (simp add: emptyFS_simps eval_defs components_def dotted_def regularFile_def)

text \<open>
  C9 as stated fails for a resolution that stops before the component: on the empty file
  system \<open>/missing/..\<close> has the component \<open>..\<close>, and \<open>Stat\<close> and \<open>Open\<close> return the
  does-not-exist error for \<open>missing\<close> as an ordinary error value; nothing panics.
\<close>

theorem dotted_component_behind_missing_name:
  "(\<exists>c\<in>set (components emptyFS ''/missing/..''). dotted c)
   \<and> Stat emptyFS ''/missing/..'' = Err ErrNotExist
   \<and> Open emptyFS ''/missing/..'' = Err ErrNotExist"
  by (simp add: emptyFS_simps eval_defs components_def dotted_def)

subsection \<open>C10: Read with an empty buffer\<close>

text \<open>
  C10. A \<open>Read\<close> with a zero-length buffer on a regular file returns 0 bytes and no error
  wherever the read cursor stands, and on a node that is not a regular file it returns the
  bad-mode error all the same; so a \<open>Read\<close> that signals \<open>io.EOF\<close> had a non-empty buffer
  (and a regular file).
\<close>

theorem Read_zero_length_buffer:
  "Read fs r [] =
     (Ok (0, (if IsRegular (mode (heap fs (fd_node r))) then None else Some errBadMode), []), r)
   \<and> (Read fs r p = (Ok (k, Some EOF, p'), r') \<longrightarrow>
        p \<noteq> [] \<and> IsRegular (mode (heap fs (fd_node r))))"
  by (auto simp: Read_def Let_def split: if_splits payload.splits)

theorem Read_zero_length_buffer_witness:
  "Read helloFS \<lparr>fd_node = Suc (Suc 0), readPos = 5\<rparr> [] = (Ok (0, None, []), \<lparr>fd_node = Suc (Suc 0), readPos = 5\<rparr>)
   \<and> Read helloFS \<lparr>fd_node = Suc 0, readPos = 0\<rparr> [] = (Ok (0, Some errBadMode, []), \<lparr>fd_node = Suc 0, readPos = 0\<rparr>)
   \<and> Read helloFS \<lparr>fd_node = Suc (Suc 0), readPos = 5\<rparr> ''x'' = (Ok (0, Some EOF, ''x''), \<lparr>fd_node = Suc (Suc 0), readPos = 5\<rparr>)
   \<and> ''x'' \<noteq> []"
  using Read_zero_length_buffer [of helloFS "\<lparr>fd_node = Suc (Suc 0), readPos = 5\<rparr>" "''x''" 0 "''x''" "\<lparr>fd_node = Suc (Suc 0), readPos = 5\<rparr>"]
    Read_zero_length_buffer [of helloFS "\<lparr>fd_node = Suc 0, readPos = 0\<rparr>" "''x''" 0 "''x''" "\<lparr>fd_node = Suc 0, readPos = 0\<rparr>"]
  by (simp add: Read_def helloFS_simps mode_defs)

end
